theory Spec2Isabelle
  imports Complex_Main "HOL-Library.Sublist"
begin

section \<open>Python values, errors and list helpers\<close>

text \<open>
  Exceptions are values. \<open>RemoteError\<close> stands for whatever an external service (the
  vector index, an embedding endpoint, the HTTP fetch, the image library) raises.
\<close>

datatype error =
    KeyError string
  | IndexError
  | ValueError
  | TypeError
  | UnboundLocalError
  | ZeroDivisionError
  | RemoteError string

text \<open>
  A metadata value of a catalog record. The retrieval code only tests such a value
  against \<open>None\<close>, renders it with \<open>str()\<close> or an f-string, and hands it back to the
  caller, so a value other than \<open>None\<close> is represented by its \<open>str()\<close> rendering.
\<close>

datatype pyval = PyNone | PyObj string

fun py_str :: "pyval \<Rightarrow> string" where
  "py_str PyNone = ''None''"
| "py_str (PyObj s) = s"

text \<open>\<open>d.get(key)\<close>: \<open>None\<close> for a missing key.\<close>

definition py_get :: "(string \<rightharpoonup> pyval) \<Rightarrow> string \<Rightarrow> pyval" where
  "py_get d key = (case d key of None \<Rightarrow> PyNone | Some v \<Rightarrow> v)"

text \<open>\<open>d[key]\<close>: raises \<open>KeyError\<close> for a missing key.\<close>

definition py_index :: "(string \<rightharpoonup> pyval) \<Rightarrow> string \<Rightarrow> error + pyval" where
  "py_index d key = (case d key of None \<Rightarrow> Inl (KeyError key) | Some v \<Rightarrow> Inr v)"

text \<open>
  The slice \<open>xs[:k]\<close> for a Python integer \<open>k\<close>: a negative \<open>k\<close> drops the last \<open>-k\<close>
  elements.
\<close>

definition py_take :: "int \<Rightarrow> 'a list \<Rightarrow> 'a list" where
  "py_take k xs = (if 0 \<le> k then take (nat k) xs else take (length xs - nat (- k)) xs)"

text \<open>The slice \<open>xs[i:j]\<close> for natural \<open>i\<close> and \<open>j\<close>; out-of-range bounds are clamped.\<close>

definition py_slice :: "nat \<Rightarrow> nat \<Rightarrow> 'a list \<Rightarrow> 'a list" where
  "py_slice i j xs = take (j - i) (drop i xs)"

text \<open>
  \<open>sorted(xs, key=key, reverse=True)\<close>. The sort is stable, and with \<open>reverse=True\<close>
  elements with equal keys keep their input order: the list is reversed, sorted stably in
  ascending order and reversed again. Scores are floats in the source and reals here
  (no NaN).
\<close>

definition sorted_reverse :: "('a \<Rightarrow> real) \<Rightarrow> 'a list \<Rightarrow> 'a list" where
  "sorted_reverse key xs = rev (sort_key key (rev xs))"

subsection \<open>Strings\<close>

text \<open>
  Python strings are modelled as \<open>string\<close>; the character classes below are the ASCII ones.
\<close>

definition is_space :: "char \<Rightarrow> bool" where
  "is_space c = (let n = (of_char c :: nat) in (9 \<le> n \<and> n \<le> 13) \<or> (28 \<le> n \<and> n \<le> 32))"

definition py_strip :: "string \<Rightarrow> string" where
  "py_strip s = rev (dropWhile is_space (rev (dropWhile is_space s)))"

definition lower_char :: "char \<Rightarrow> char" where
  "lower_char c = (let n = (of_char c :: nat) in if 65 \<le> n \<and> n \<le> 90 then char_of (n + 32) else c)"

definition py_lower :: "string \<Rightarrow> string" where
  "py_lower s = map lower_char s"

text \<open>\<open>sub in s\<close> for strings.\<close>

fun py_in :: "string \<Rightarrow> string \<Rightarrow> bool" where
  "py_in sub [] = (sub = [])"
| "py_in sub (c # cs) = (prefix sub (c # cs) \<or> py_in sub cs)"

text \<open>
  \<open>s.split(sep)\<close> for a non-empty separator (every caller passes a literal): the pieces
  between the leftmost non-overlapping occurrences of \<open>sep\<close>. The result is never empty.
\<close>

function py_split :: "string \<Rightarrow> string \<Rightarrow> string list" where
  "py_split sep [] = [[]]"
| "py_split sep (c # cs) =
     (if sep \<noteq> [] \<and> prefix sep (c # cs)
      then [] # py_split sep (drop (length sep) (c # cs))
      else (case py_split sep cs of
              [] \<Rightarrow> [[c]]
            | p # ps \<Rightarrow> (c # p) # ps))"
  by pat_completeness auto
termination
  by (relation "measure (\<lambda>(sep, s). length s)") (auto simp: prefix_def)

text \<open>
  \<open>s.replace(old, new)\<close> for a non-empty \<open>old\<close> (the caller passes a literal): every
  leftmost non-overlapping occurrence is replaced.
\<close>

function py_replace :: "string \<Rightarrow> string \<Rightarrow> string \<Rightarrow> string" where
  "py_replace old new [] = []"
| "py_replace old new (c # cs) =
     (if old \<noteq> [] \<and> prefix old (c # cs)
      then new @ py_replace old new (drop (length old) (c # cs))
      else c # py_replace old new cs)"
  by pat_completeness auto
termination
  by (relation "measure (\<lambda>(old, new, s). length s)") (auto simp: prefix_def)

section \<open>The retriever: \<open>Retriever.retrieve\<close>\<close>

text \<open>
  A \<open>Document\<close> of the vector index: its text and its metadata dictionary. A search
  returns a list of \<open>(Document, score)\<close> pairs.
\<close>

record document =
  page_content :: string
  metadata :: "string \<rightharpoonup> pyval"

type_synonym scored = "document \<times> real"

text \<open>
  The retriever object, as far as \<open>retrieve\<close> uses it: the similarity threshold of the
  configuration and \<open>similarity_search_with_relevance_scores(query, k=n)\<close> of the two
  collection handles, which are external and may raise.
\<close>

record retriever =
  sim_threshold :: real
  text_db :: "string \<Rightarrow> int \<Rightarrow> error + scored list"
  image_db :: "string \<Rightarrow> int \<Rightarrow> error + scored list"

text \<open>A dispatched similarity search: the collection, the query and the requested \<open>k\<close>.\<close>

datatype search_request = TextSearch string int | ImageSearch string int

fun requested :: "search_request \<Rightarrow> int" where
  "requested (TextSearch q n) = n"
| "requested (ImageSearch q n) = n"

definition placeholder_query :: string where
  "placeholder_query = ''Can you find me something like this image?''"

text \<open>The queries searched: \<open>local_queries\<close> of the source.\<close>

definition local_queries :: "string list \<Rightarrow> string list" where
  "local_queries query = (if query = [] then [placeholder_query] else query)"

text \<open>
  The tasks handed to \<open>asyncio.gather\<close>, in order: in image mode one text search per
  local query and then the image search; otherwise one text search per local query.
\<close>

definition dispatch :: "string list \<Rightarrow> string \<Rightarrow> int \<Rightarrow> bool \<Rightarrow> search_request list" where
  "dispatch query image_str k image_bool =
     (if image_bool
      then map (\<lambda>local_query. TextSearch local_query k) (local_queries query)
           @ [ImageSearch (py_replace ''data:application/octet-stream'' ''data:image/jpeg'' image_str)
                          (k * int (length query))]
      else map (\<lambda>local_query. TextSearch local_query (k * int (length query)))
               (local_queries query))"

fun run_search :: "retriever \<Rightarrow> search_request \<Rightarrow> error + scored list" where
  "run_search r (TextSearch q n) = text_db r q n"
| "run_search r (ImageSearch q n) = image_db r q n"

text \<open>
  \<open>await asyncio.gather(*tasks)\<close>: the results in task order, or the exception of a
  failing task (here the first failing task in task order).
\<close>

fun gather :: "retriever \<Rightarrow> search_request list \<Rightarrow> error + scored list list" where
  "gather r [] = Inr []"
| "gather r (t # ts) =
     (case run_search r t of
        Inl e \<Rightarrow> Inl e
      | Inr res \<Rightarrow> (case gather r ts of Inl e \<Rightarrow> Inl e | Inr rest \<Rightarrow> Inr (res # rest)))"

text \<open>
  The text-only fusion loop: \<open>active_iterators\<close> is a queue of iterators; the first is
  popped, and if it yields an item the item is appended to the output and the iterator
  goes to the back of the queue, otherwise the iterator is dropped.
\<close>

function interleave :: "'a list list \<Rightarrow> 'a list" where
  "interleave [] = []"
| "interleave ([] # active) = interleave active"
| "interleave ((item # it) # active) = item # interleave (active @ [it])"
  by pat_completeness auto
termination
  by (relation "measure (\<lambda>active. sum_list (map length active) + length active)") auto

text \<open>
  Round-robin interleaving as the specification words it: in every round the head of each
  non-exhausted list is taken, in list order, until all of them are exhausted.
\<close>

lemma sum_length_tl_active:
  "sum_list (map length (map tl (filter (\<lambda>l. l \<noteq> []) queues))) + length (filter (\<lambda>l. l \<noteq> []) queues)
   = sum_list (map length queues)"
proof (induction queues)
  case Nil
  show ?case by simp
next
  case (Cons l queues)
  then show ?case by (cases l) simp_all
qed

function round_robin :: "'a list list \<Rightarrow> 'a list" where
  "round_robin queues =
     (let active = filter (\<lambda>l. l \<noteq> []) queues
      in if active = [] then [] else map hd active @ round_robin (map tl active))"
  by pat_completeness auto
termination
proof (relation "measure (\<lambda>queues. sum_list (map length queues))")
  show "wf (measure (\<lambda>queues :: 'a list list. sum_list (map length queues)))" by simp
next
  fix queues active :: "'a list list"
  assume "active = filter (\<lambda>l. l \<noteq> []) queues" and "active \<noteq> []"
  then have "0 < length (filter (\<lambda>l. l \<noteq> []) queues)" by simp
  then have "sum_list (map length (map tl (filter (\<lambda>l. l \<noteq> []) queues)))
               < sum_list (map length queues)"
    using sum_length_tl_active [of queues] by linarith
  then show "(map tl active, queues) \<in> measure (\<lambda>queues. sum_list (map length queues))"
    using \<open>active = filter (\<lambda>l. l \<noteq> []) queues\<close> by simp
qed

declare round_robin.simps [simp del]

definition fuse :: "bool \<Rightarrow> scored list list \<Rightarrow> scored list" where
  "fuse image_bool sorted_unformatted_results =
     (if image_bool then sorted_reverse snd (concat sorted_unformatted_results)
      else interleave sorted_unformatted_results)"

text \<open>The id of a candidate: \<open>str(pk)\<close>, or \<open>None\<close> when \<open>pk\<close> is missing or \<open>None\<close>.\<close>

definition pk_id :: "scored \<Rightarrow> string option" where
  "pk_id res = (case py_get (metadata (fst res)) ''pk'' of
                  PyNone \<Rightarrow> None
                | PyObj s \<Rightarrow> Some (py_str (PyObj s)))"

fun deduplicate :: "string set \<Rightarrow> scored list \<Rightarrow> scored list" where
  "deduplicate seen_ids [] = []"
| "deduplicate seen_ids (res # rest) =
     (case pk_id res of
        None \<Rightarrow> deduplicate seen_ids rest
      | Some i \<Rightarrow> if i \<notin> seen_ids then res # deduplicate (insert i seen_ids) rest
                  else deduplicate seen_ids rest)"

text \<open>\<open>[res[0].metadata[key] for res in results]\<close>: the first missing key raises.\<close>

fun lookup_all :: "string \<Rightarrow> scored list \<Rightarrow> error + pyval list" where
  "lookup_all key [] = Inr []"
| "lookup_all key (res # rest) =
     (case py_index (metadata (fst res)) key of
        Inl e \<Rightarrow> Inl e
      | Inr v \<Rightarrow> (case lookup_all key rest of Inl e \<Rightarrow> Inl e | Inr vs \<Rightarrow> Inr (v # vs)))"

text \<open>The verbose log lines format the \<open>name\<close> of every listed candidate.\<close>

definition log_names :: "bool \<Rightarrow> scored list \<Rightarrow> error + unit" where
  "log_names verbose results =
     (if verbose
      then (case lookup_all ''name'' results of Inl e \<Rightarrow> Inl e | Inr names \<Rightarrow> Inr ())
      else Inr ())"

type_synonym results = "string list \<times> string list \<times> real list \<times> pyval list \<times> pyval list"

text \<open>The five parallel lists built from the deduplicated candidates.\<close>

definition format_results :: "scored list \<Rightarrow> error + results" where
  "format_results all_results =
     (case lookup_all ''price'' all_results of
        Inl e \<Rightarrow> Inl e
      | Inr prices \<Rightarrow>
     (case lookup_all ''pk'' all_results of
        Inl e \<Rightarrow> Inl e
      | Inr pks \<Rightarrow>
     (case lookup_all ''name'' all_results of
        Inl e \<Rightarrow> Inl e
      | Inr final_names \<Rightarrow>
     (case lookup_all ''image'' all_results of
        Inl e \<Rightarrow> Inl e
      | Inr final_images \<Rightarrow>
          Inr (map (\<lambda>(res, price). page_content (fst res) @ [CHR 0x0A] @ ''PRICE: '' @ py_str price)
                   (zip all_results prices),
               map py_str pks,
               map snd all_results,
               final_names,
               final_images)))))"

text \<open>\<open>[x for x, sim in zip(xs[:k], final_sims[:k]) if sim > self.sim_threshold]\<close>\<close>

definition threshold_topk :: "real \<Rightarrow> int \<Rightarrow> 'a list \<Rightarrow> real list \<Rightarrow> 'a list" where
  "threshold_topk thr k xs final_sims =
     map fst (filter (\<lambda>(x, sim). sim > thr) (zip (py_take k xs) (py_take k final_sims)))"

text \<open>
  Threshold and top \<open>k\<close>, the sort by descending similarity, and the final truncation.
\<close>

definition rank_results :: "real \<Rightarrow> int \<Rightarrow> results \<Rightarrow> results" where
  "rank_results thr k formatted =
     (case formatted of (texts0, ids0, sims0, names0, images0) \<Rightarrow>
        let final_texts = threshold_topk thr k texts0 sims0;
            final_ids = threshold_topk thr k ids0 sims0;
            final_names = threshold_topk thr k names0 sims0;
            final_images = threshold_topk thr k images0 sims0;
            final_sims = filter (\<lambda>sim. sim > thr) (py_take k sims0);
            zipped = zip final_sims (zip final_texts (zip final_ids (zip final_names final_images)));
            zipped_sorted = sorted_reverse fst zipped
        in (py_take k (map (\<lambda>(sim, text, ident, name, img). text) zipped_sorted),
            py_take k (map (\<lambda>(sim, text, ident, name, img). ident) zipped_sorted),
            py_take k (map (\<lambda>(sim, text, ident, name, img). sim) zipped_sorted),
            py_take k (map (\<lambda>(sim, text, ident, name, img). name) zipped_sorted),
            py_take k (map (\<lambda>(sim, text, ident, name, img). img) zipped_sorted)))"

text \<open>
  The categories parsed from a text payload \<open>name | description | category,subcategory\<close>
  followed by the price line.
\<close>

definition parse_categories :: "string \<Rightarrow> string list" where
  "parse_categories text =
     (let category_part0 = py_strip (last (py_split ''|'' text));
          category_part = (if py_in ''PRICE:'' category_part0
                           then py_strip (hd (py_split ''PRICE:'' category_part0))
                           else category_part0);
          parts = py_split '','' category_part
      in filter (\<lambda>cleaned. cleaned \<noteq> [] \<and> \<not> prefix ''/'' cleaned)
                (map (\<lambda>part. py_lower (py_strip part)) parts))"

text \<open>The two nested loops with \<open>break\<close> of the category filter.\<close>

definition match_found :: "string list \<Rightarrow> string list \<Rightarrow> bool" where
  "match_found categories cats =
     list_ex (\<lambda>user_cat.
        list_ex (\<lambda>prod_cat. py_in (py_strip (py_lower user_cat)) prod_cat
                           \<or> py_in prod_cat (py_strip (py_lower user_cat))) cats) categories"

definition category_filter :: "string list \<Rightarrow> results \<Rightarrow> results" where
  "category_filter categories ranked =
     (case ranked of (final_texts, final_ids, final_sims, final_names, final_images) \<Rightarrow>
        let cat_list = map parse_categories final_texts;
            filtered = filter (\<lambda>(text, ident, sim, name, img, cats). match_found categories cats)
                         (zip final_texts (zip final_ids (zip final_sims
                            (zip final_names (zip final_images cat_list)))))
        in (map (\<lambda>(text, ident, sim, name, img, cats). text) filtered,
            map (\<lambda>(text, ident, sim, name, img, cats). ident) filtered,
            map (\<lambda>(text, ident, sim, name, img, cats). sim) filtered,
            map (\<lambda>(text, ident, sim, name, img, cats). name) filtered,
            map (\<lambda>(text, ident, sim, name, img, cats). img) filtered))"

text \<open>
  From the fused candidates to the ranked candidates: deduplication, formatting, threshold,
  top \<open>k\<close>, the sort by similarity and the final truncation.
\<close>

definition select_results :: "real \<Rightarrow> int \<Rightarrow> bool \<Rightarrow> scored list \<Rightarrow> error + results" where
  "select_results thr k verbose interleaved_results =
     (let all_results = deduplicate {} interleaved_results
      in (case log_names verbose all_results of
            Inl e \<Rightarrow> Inl e
          | Inr u \<Rightarrow>
              (case format_results all_results of
                 Inl e \<Rightarrow> Inl e
               | Inr formatted \<Rightarrow> Inr (rank_results thr k formatted))))"

text \<open>
  Everything before the category stage: dispatch and gather, the per-query sort, fusion
  and the selection above.
\<close>

definition ranked_results ::
  "retriever \<Rightarrow> string list \<Rightarrow> string \<Rightarrow> int \<Rightarrow> bool \<Rightarrow> bool \<Rightarrow> error + results" where
  "ranked_results r query image_str k image_bool verbose =
     (case gather r (dispatch query image_str k image_bool) of
        Inl e \<Rightarrow> Inl e
      | Inr unformatted_results \<Rightarrow>
          let sorted_unformatted_results = map (sorted_reverse snd) unformatted_results in
          (case log_names verbose (concat sorted_unformatted_results) of
             Inl e \<Rightarrow> Inl e
           | Inr u \<Rightarrow>
               select_results (sim_threshold r) k verbose
                 (fuse image_bool sorted_unformatted_results)))"

definition retrieve ::
  "retriever \<Rightarrow> string list \<Rightarrow> string list \<Rightarrow> string \<Rightarrow> int \<Rightarrow> bool \<Rightarrow> bool \<Rightarrow> error + results" where
  "retrieve r query categories image_str k image_bool verbose =
     (case ranked_results r query image_str k image_bool verbose of
        Inl e \<Rightarrow> Inl e
      | Inr ranked \<Rightarrow>
          if image_bool then Inr ranked
          else if categories = [] then Inr ([], [], [], [], [])
          else Inr (category_filter categories ranked))"

section \<open>Text embeddings: \<open>Retriever.text_embeddings\<close>\<close>

text \<open>An embedding vector. Coordinates are floats in the source and reals here.\<close>

type_synonym vec = "real list"

text \<open>
  What \<open>text_embeddings\<close> uses of the outside world: the text splitter
  (\<open>RecursiveCharacterTextSplitter(chunk_size=1000, chunk_overlap=200).split_text\<close>) and
  the remote call \<open>text_client.embeddings.create\<close>. The call issued for the batch that
  starts at chunk index \<open>i\<close> gets the batch and the input type and answers with the
  vectors of \<open>response.data\<close> or raises; the index lets every call fail or succeed on
  its own.
\<close>

record embedder =
  split_text :: "string \<Rightarrow> string list"
  text_client :: "nat \<Rightarrow> string list \<Rightarrow> string \<Rightarrow> error + vec list"

text \<open>\<open>_create_text_chunks\<close>: all chunks in order, and the number of chunks of each text.\<close>

fun create_text_chunks :: "(string \<Rightarrow> string list) \<Rightarrow> string list \<Rightarrow> string list \<times> nat list" where
  "create_text_chunks splitter [] = ([], [])"
| "create_text_chunks splitter (text # texts) =
     (let chunks = splitter text;
          (all_chunks, text_chunk_counts) = create_text_chunks splitter texts
      in (chunks @ all_chunks, length chunks # text_chunk_counts))"

text \<open>
  The loop of \<open>_embed_chunks_in_batches\<close> from chunk index \<open>i\<close> on: a failed call
  contributes one \<open>None\<close> per chunk of its batch, a successful call the vectors it
  returned.
\<close>

function embed_batches_from ::
  "(nat \<Rightarrow> string list \<Rightarrow> string \<Rightarrow> error + vec list) \<Rightarrow> string list \<Rightarrow> string \<Rightarrow> nat \<Rightarrow> nat
   \<Rightarrow> vec option list" where
  "embed_batches_from client all_chunks query_type batch_size i =
     (if batch_size = 0 \<or> length all_chunks \<le> i then []
      else (let batch_chunks = py_slice i (i + batch_size) all_chunks
            in (case client i batch_chunks query_type of
                  Inr data \<Rightarrow> map Some data
                | Inl e \<Rightarrow> map (\<lambda>chunk. None) batch_chunks)
               @ embed_batches_from client all_chunks query_type batch_size (i + batch_size)))"
  by pat_completeness auto
termination
  by (relation "measure (\<lambda>(client, all_chunks, query_type, batch_size, i). length all_chunks - i)") auto

declare embed_batches_from.simps [simp del]

text \<open>
  \<open>_embed_chunks_in_batches\<close>; \<open>batch_size\<close> is the keyword parameter with default 32.
  With \<open>batch_size = 0\<close> the division that computes \<open>num_batches\<close> raises
  \<open>ZeroDivisionError\<close>.
\<close>

definition embed_chunks_in_batches ::
  "(nat \<Rightarrow> string list \<Rightarrow> string \<Rightarrow> error + vec list) \<Rightarrow> string list \<Rightarrow> string \<Rightarrow> nat
   \<Rightarrow> error + vec option list" where
  "embed_chunks_in_batches client all_chunks query_type batch_size =
     (if batch_size = 0 then Inl ZeroDivisionError
      else Inr (embed_batches_from client all_chunks query_type batch_size 0))"

text \<open>
  \<open>numpy.mean(vectors, axis=0)\<close> for a non-empty list of vectors, over the reals: the
  coordinate-wise arithmetic mean. Vectors of different lengths do not form an array and
  the call raises.
\<close>

definition mean_axis0 :: "vec list \<Rightarrow> error + vec" where
  "mean_axis0 vectors =
     (if list_all (\<lambda>v. length v = length (hd vectors)) vectors
      then Inr (map (\<lambda>j. sum_list (map (\<lambda>v. v ! j) vectors) / real (length vectors))
                    [0..<length (hd vectors)])
      else Inl ValueError)"

text \<open>The entries that are not \<open>None\<close>: \<open>[x for x in xs if x is not None]\<close>.\<close>

definition not_none :: "'a option list \<Rightarrow> 'a list" where
  "not_none xs = map the (filter (\<lambda>x. x \<noteq> None) xs)"

text \<open>
  The loop of \<open>_reconstruct_embeddings\<close> at text index \<open>i\<close> with
  \<open>current_chunk_idx\<close>. \<open>text_chunk_counts[i]\<close> raises \<open>IndexError\<close> out of range.
\<close>

fun reconstruct_from ::
  "vec option list \<Rightarrow> nat list \<Rightarrow> nat \<Rightarrow> nat \<Rightarrow> string list \<Rightarrow> error + vec option list" where
  "reconstruct_from all_chunk_embeddings text_chunk_counts i current_chunk_idx [] = Inr []"
| "reconstruct_from all_chunk_embeddings text_chunk_counts i current_chunk_idx (text # texts) =
     (if length text_chunk_counts \<le> i then Inl IndexError
      else
        let num_chunks = text_chunk_counts ! i in
        if num_chunks = 0
        then (case reconstruct_from all_chunk_embeddings text_chunk_counts (i + 1)
                     current_chunk_idx texts of
                Inl e \<Rightarrow> Inl e
              | Inr final_embeddings \<Rightarrow> Inr (None # final_embeddings))
        else
          let chunk_embeddings =
                py_slice current_chunk_idx (current_chunk_idx + num_chunks) all_chunk_embeddings;
              valid_chunk_embeddings = not_none chunk_embeddings
          in if valid_chunk_embeddings \<noteq> []
             then (case mean_axis0 valid_chunk_embeddings of
                     Inl e \<Rightarrow> Inl e
                   | Inr average_embedding \<Rightarrow>
                       (case reconstruct_from all_chunk_embeddings text_chunk_counts (i + 1)
                               (current_chunk_idx + num_chunks) texts of
                          Inl e \<Rightarrow> Inl e
                        | Inr final_embeddings \<Rightarrow> Inr (Some average_embedding # final_embeddings)))
             else (case reconstruct_from all_chunk_embeddings text_chunk_counts (i + 1)
                          (current_chunk_idx + num_chunks) texts of
                     Inl e \<Rightarrow> Inl e
                   | Inr final_embeddings \<Rightarrow> Inr (None # final_embeddings)))"

definition reconstruct_embeddings ::
  "string list \<Rightarrow> vec option list \<Rightarrow> nat list \<Rightarrow> error + vec option list" where
  "reconstruct_embeddings texts all_chunk_embeddings text_chunk_counts =
     reconstruct_from all_chunk_embeddings text_chunk_counts 0 0 texts"

text \<open>
  Where the chunk embeddings of text \<open>i\<close> start in the flat sequence: the sum of the
  chunk counts of the texts before it.
\<close>

definition chunk_offset :: "nat list \<Rightarrow> nat \<Rightarrow> nat" where
  "chunk_offset text_chunk_counts i = sum_list (take i text_chunk_counts)"

definition text_embeddings :: "embedder \<Rightarrow> string list \<Rightarrow> string \<Rightarrow> error + vec option list" where
  "text_embeddings env texts query_type =
     (if texts = [] then Inr []
      else
        (case create_text_chunks (split_text env) texts of (all_chunks, text_chunk_counts) \<Rightarrow>
           if all_chunks = [] then Inr (replicate (length texts) None)
           else
             (case embed_chunks_in_batches (text_client env) all_chunks query_type 32 of
                Inl e \<Rightarrow> Inl e
              | Inr all_chunk_embeddings \<Rightarrow>
                  reconstruct_embeddings texts all_chunk_embeddings text_chunk_counts)))"

text \<open>
  What the reconstruction is expected to give for text \<open>i\<close>, in the words of the
  specification: the coordinate-wise arithmetic mean (dimension \<open>d\<close>) of the chunk vectors
  of its slice that are not absent, and absence when there is none.
\<close>

definition expected_embedding :: "nat \<Rightarrow> vec option list \<Rightarrow> nat list \<Rightarrow> nat \<Rightarrow> vec option" where
  "expected_embedding d embs counts i =
     (let valid = not_none (py_slice (chunk_offset counts i) (chunk_offset counts i + counts ! i) embs)
      in if valid = [] then None
         else Some (map (\<lambda>j. sum_list (map (\<lambda>v. v ! j) valid) / real (length valid)) [0..<d]))"

text \<open>
  What chunk position \<open>p\<close> is expected to get: it depends on the remote call of its own
  batch only, absence when that call failed and the vector at its place in the response
  otherwise.
\<close>

definition batch_outcome ::
  "(nat \<Rightarrow> string list \<Rightarrow> string \<Rightarrow> error + vec list) \<Rightarrow> string list \<Rightarrow> string \<Rightarrow> nat \<Rightarrow> nat
   \<Rightarrow> vec option" where
  "batch_outcome client all_chunks query_type batch_size p =
     (let start = p div batch_size * batch_size
      in case client start (py_slice start (start + batch_size) all_chunks) query_type of
           Inl e \<Rightarrow> None
         | Inr data \<Rightarrow> Some (data ! (p mod batch_size)))"

section \<open>Image normalisation and embeddings: \<open>Retriever.image_embeddings\<close>\<close>

definition MAX_VARCHAR_LENGTH :: nat where
  "MAX_VARCHAR_LENGTH = 65535"

text \<open>\<open>is_url\<close> and \<open>is_path\<close>: the patterns \<open>^https?://\<close> and \<open>^/\<close>.\<close>

definition is_url :: "string \<Rightarrow> bool" where
  "is_url s = (prefix ''http://'' s \<or> prefix ''https://'' s)"

definition is_path :: "string \<Rightarrow> bool" where
  "is_path s = prefix ''/'' s"

text \<open>
  What image handling uses of the outside world. \<open>http_get\<close> is \<open>requests.get\<close> with
  \<open>raise_for_status\<close>: the \<open>Content-Type\<close> header (empty when missing) and the body.
  \<open>read_file\<close> opens a file for reading. \<open>b64decode\<close> is \<open>base64.b64decode\<close>.
  \<open>encode_jpeg\<close> is one resize-and-recompress pass of the image library: open the bytes
  as an image, convert to RGB, \<open>thumbnail((256, 256))\<close>, save as JPEG at quality 85 and
  base64-encode. \<open>image_client\<close> is the remote call for the batch starting at index \<open>i\<close>.
  Bytes are strings here.
\<close>

record imaging =
  http_get :: "string \<Rightarrow> error + string \<times> string"
  read_file :: "string \<Rightarrow> error + string"
  b64decode :: "string \<Rightarrow> error + string"
  encode_jpeg :: "string \<Rightarrow> error + string"
  image_client :: "nat \<Rightarrow> string list \<Rightarrow> error + vec list"

text \<open>
  \<open>image_url_to_base64\<close> with its default parameters: every exception is caught and
  gives \<open>None\<close>, and so does an encoded string longer than \<open>max_b64_length = 65535\<close>.
\<close>

definition image_url_to_base64 :: "imaging \<Rightarrow> string \<Rightarrow> string option" where
  "image_url_to_base64 img image_url =
     (case http_get img image_url of
        Inl e \<Rightarrow> None
      | Inr (content_type, content) \<Rightarrow>
          (case encode_jpeg img content of
             Inl e \<Rightarrow> None
           | Inr base64_image \<Rightarrow>
               let base64_string = ''data:'' @ content_type @ '';base64,'' @ base64_image
               in if length base64_string > 65535 then None else Some base64_string))"

text \<open>\<open>image_path_to_base64\<close>: no exception is caught here.\<close>

definition image_path_to_base64 :: "imaging \<Rightarrow> string \<Rightarrow> error + string option" where
  "image_path_to_base64 img image_path =
     (case read_file img (''/app/shared/'' @ image_path) of
        Inl e \<Rightarrow> Inl e
      | Inr content \<Rightarrow>
          (case encode_jpeg img content of
             Inl e \<Rightarrow> Inl e
           | Inr base64_image \<Rightarrow>
               let base64_string = ''data:image/jpeg;base64,'' @ base64_image
               in if length base64_string > 65535 then Inr None else Inr (Some base64_string)))"

text \<open>
  \<open>header, base64_data = s.split(',', 1)\<close>: \<open>None\<close> stands for the \<open>ValueError\<close> of
  the unpacking when there is no comma.
\<close>

definition split_once :: "char \<Rightarrow> string \<Rightarrow> (string \<times> string) option" where
  "split_once c s =
     (case dropWhile (\<lambda>x. x \<noteq> c) s of
        [] \<Rightarrow> None
      | x # rest \<Rightarrow> Some (takeWhile (\<lambda>x. x \<noteq> c) s, rest))"

text \<open>\<open>resize_base64_image\<close>: every exception is caught and gives \<open>None\<close>.\<close>

definition resize_base64_image :: "imaging \<Rightarrow> string \<Rightarrow> string option" where
  "resize_base64_image img base64_string =
     (case (if prefix ''data:'' base64_string then split_once CHR '','' base64_string
            else Some (''data:image/jpeg;base64'', base64_string)) of
        None \<Rightarrow> None
      | Some (header, base64_data) \<Rightarrow>
          (case b64decode img base64_data of
             Inl e \<Rightarrow> None
           | Inr image_data \<Rightarrow>
               (case encode_jpeg img image_data of
                  Inl e \<Rightarrow> None
                | Inr resized_base64 \<Rightarrow> Some (header @ '','' @ resized_base64))))"

text \<open>The payload of a reference before the length check: the dispatch on its prefix.\<close>

definition load_input :: "imaging \<Rightarrow> string \<Rightarrow> error + string option" where
  "load_input img text =
     (if is_url text then Inr (image_url_to_base64 img text)
      else if is_path text then image_path_to_base64 img text
      else Inr (Some text))"

text \<open>
  The \<open>try\<close> block that normalises one reference. Every exception gives \<open>None\<close>; so does
  a \<open>None\<close> payload, on which \<open>len\<close> raises \<open>TypeError\<close>. The second component is not
  in the source: it records the payloads handed to \<open>resize_base64_image\<close>, so that the
  number of resize passes can be stated.
\<close>

definition normalize_input :: "imaging \<Rightarrow> string \<Rightarrow> string option \<times> string list" where
  "normalize_input img text =
     (case load_input img text of
        Inl e \<Rightarrow> (None, [])
      | Inr None \<Rightarrow> (None, [])
      | Inr (Some input_data) \<Rightarrow>
          if length input_data > MAX_VARCHAR_LENGTH
          then (case resize_base64_image img input_data of
                  None \<Rightarrow> (None, [input_data])
                | Some resized \<Rightarrow>
                    if resized \<noteq> [] \<and> length resized \<le> MAX_VARCHAR_LENGTH
                    then (Some resized, [input_data])
                    else (None, [input_data]))
          else (Some input_data, []))"

text \<open>
  The loop that rebuilds a batch: each normalised input takes the next embedding of the
  iterator, or \<open>None\<close> once the iterator is exhausted; a failed input gets \<open>None\<close>.
\<close>

fun reconstruct_batch :: "string option list \<Rightarrow> vec list \<Rightarrow> vec option list" where
  "reconstruct_batch [] batch_embeddings = []"
| "reconstruct_batch (None # input_data_list) batch_embeddings =
     None # reconstruct_batch input_data_list batch_embeddings"
| "reconstruct_batch (Some data # input_data_list) [] =
     None # reconstruct_batch input_data_list []"
| "reconstruct_batch (Some data # input_data_list) (embedding # batch_embeddings) =
     Some embedding # reconstruct_batch input_data_list batch_embeddings"

text \<open>The embeddings the endpoint gives for a batch; none when the call raises.\<close>

definition batch_response :: "imaging \<Rightarrow> nat \<Rightarrow> string option list \<Rightarrow> vec list" where
  "batch_response img i input_data_list =
     (let valid_inputs = not_none input_data_list
      in if valid_inputs \<noteq> []
         then (case image_client img i valid_inputs of Inr data \<Rightarrow> data | Inl e \<Rightarrow> [])
         else [])"

definition embed_image_batch :: "imaging \<Rightarrow> nat \<Rightarrow> string list \<Rightarrow> vec option list" where
  "embed_image_batch img i batch_texts =
     (let input_data_list = map (\<lambda>text. fst (normalize_input img text)) batch_texts
      in reconstruct_batch input_data_list (batch_response img i input_data_list))"

function image_embeddings_from :: "imaging \<Rightarrow> string list \<Rightarrow> nat \<Rightarrow> vec option list" where
  "image_embeddings_from img texts i =
     (if length texts \<le> i then []
      else embed_image_batch img i (py_slice i (i + 32) texts)
           @ image_embeddings_from img texts (i + 32))"
  by pat_completeness auto
termination
  by (relation "measure (\<lambda>(img, texts, i). length texts - i)") auto

declare image_embeddings_from.simps [simp del]

definition image_embeddings :: "imaging \<Rightarrow> string list \<Rightarrow> vec option list" where
  "image_embeddings img texts = image_embeddings_from img texts 0"

text \<open>
  What image position \<open>p\<close> is expected to get: absence when its normalisation failed;
  otherwise the embedding whose place in the response of its batch is the number of
  normalised inputs before it in the batch, or absence when the response is too short.
\<close>

definition image_outcome :: "imaging \<Rightarrow> string list \<Rightarrow> nat \<Rightarrow> vec option" where
  "image_outcome img texts p =
     (let start = p div 32 * 32;
          input_data_list = map (\<lambda>text. fst (normalize_input img text))
                                (py_slice start (start + 32) texts);
          batch_embeddings = batch_response img start input_data_list;
          place = length (not_none (take (p mod 32) input_data_list))
      in if fst (normalize_input img (texts ! p)) = None \<or> length batch_embeddings \<le> place
         then None
         else Some (batch_embeddings ! place))"

section \<open>Bulk import: \<open>Retriever.embeddings_exist\<close> and \<open>Retriever.milvus_from_csv\<close>\<close>

text \<open>A row of the tabular source; its fields are also the metadata of the record.\<close>

record csv_row =
  row_name :: string
  row_description :: string
  row_category :: string
  row_subcategory :: string
  row_image :: string

type_synonym entity = "string \<times> vec \<times> csv_row"

text \<open>
  A collection handle of the vector store: \<open>col\<close> is \<open>None\<close> until the collection
  exists, and \<open>flush_fails\<close> tells whether \<open>col.flush()\<close> raises.
\<close>

record vector_db =
  col :: "entity list option"
  flush_fails :: bool

text \<open>The two handles \<open>self.text_db\<close> and \<open>self.image_db\<close>, as stores of records.\<close>

record stores =
  text_store :: vector_db
  image_store :: vector_db

text \<open>The count read for one collection inside \<open>embeddings_exist\<close>.\<close>

definition count_entities :: "vector_db \<Rightarrow> error + nat" where
  "count_entities db =
     (case col db of
        None \<Rightarrow> Inr 0
      | Some entities \<Rightarrow>
          if flush_fails db then Inl (RemoteError ''flush'') else Inr (length entities))"

definition embeddings_exist :: "stores \<Rightarrow> bool" where
  "embeddings_exist s =
     (case count_entities (text_store s) of
        Inl e \<Rightarrow> False
      | Inr text_count \<Rightarrow>
          (case count_entities (image_store s) of
             Inl e \<Rightarrow> False
           | Inr image_count \<Rightarrow> text_count > 0 \<and> image_count > 0))"

text \<open>\<open>add_embeddings\<close>: the records are appended, and the collection exists afterwards.\<close>

definition add_embeddings :: "vector_db \<Rightarrow> entity list \<Rightarrow> vector_db" where
  "add_embeddings db new_entities =
     db\<lparr>col := Some ((case col db of None \<Rightarrow> [] | Some entities \<Rightarrow> entities) @ new_entities)\<rparr>"

text \<open>\<open>[(x, emb, meta) for x, emb, meta in zip(xs, embs, metadatas) if emb is not None]\<close>\<close>

definition successful_data :: "string list \<Rightarrow> vec option list \<Rightarrow> csv_row list \<Rightarrow> entity list" where
  "successful_data xs embs metadatas =
     map (\<lambda>(x, emb, meta). (x, the emb, meta))
         (filter (\<lambda>(x, emb, meta). emb \<noteq> None) (zip xs (zip embs metadatas)))"

text \<open>
  The body of \<open>milvus_from_csv\<close> after the guard. \<open>csv\<close> is the outcome of
  \<open>pd.read_csv\<close>; when it raised, the exception is logged and the first use of \<open>df\<close>
  raises \<open>UnboundLocalError\<close>.
\<close>

definition populate :: "embedder \<Rightarrow> imaging \<Rightarrow> error + csv_row list \<Rightarrow> stores \<Rightarrow> error + stores" where
  "populate env img csv s =
     (case csv of
        Inl e \<Rightarrow> Inl UnboundLocalError
      | Inr df \<Rightarrow>
          let combined_texts =
                map (\<lambda>row. row_name row @ '' | '' @ row_description row @ '' | ''
                            @ row_category row @ '','' @ row_subcategory row) df
          in (case text_embeddings env combined_texts ''passage'' of
                Inl e \<Rightarrow> Inl e
              | Inr text_embs \<Rightarrow>
                  let successful_texts_data = successful_data combined_texts text_embs df;
                      s1 = (if successful_texts_data \<noteq> []
                            then s\<lparr>text_store := add_embeddings (text_store s) successful_texts_data\<rparr>
                            else s);
                      image_embs = image_embeddings img (map row_image df);
                      successful_images_data = successful_data (map row_image df) image_embs df
                  in Inr (if successful_images_data \<noteq> []
                          then s1\<lparr>image_store := add_embeddings (image_store s1) successful_images_data\<rparr>
                          else s1)))"

definition milvus_from_csv :: "embedder \<Rightarrow> imaging \<Rightarrow> error + csv_row list \<Rightarrow> stores \<Rightarrow> error + stores" where
  "milvus_from_csv env img csv s =
     (if embeddings_exist s then Inr s else populate env img csv s)"

section \<open>Example data\<close>

text \<open>A small catalog and index used to evaluate the model on concrete inputs.\<close>

definition example_doc :: "string \<Rightarrow> string \<Rightarrow> document" where
  "example_doc pk cats =
     \<lparr>page_content = ''Shoe | nice | '' @ cats,
      metadata = [''pk'' \<mapsto> PyObj pk, ''name'' \<mapsto> PyObj ''Shoe'', ''price'' \<mapsto> PyObj ''9.5'',
                  ''image'' \<mapsto> PyObj ''/i.jpg'']\<rparr>"

definition example_retriever :: retriever where
  "example_retriever =
     \<lparr>sim_threshold = 0.75,
      text_db = (\<lambda>q n. if q = ''red shoes''
                        then Inr [(example_doc ''1'' ''Shoes,Red'', 0.9), (example_doc ''2'' ''Shoes,Red'', 0.8)]
                        else Inr [(example_doc ''3'' ''Shoes,Blue'', 0.85), (example_doc ''1'' ''Shoes,Red'', 0.8),
                                  (example_doc ''4'' ''Bags,Blue'', 0.7)]),
      image_db = (\<lambda>q n. Inr [(example_doc ''5'' ''Bags,Red'', 0.95)])\<rparr>"

definition example_no_pk :: document where
  "example_no_pk = \<lparr>page_content = ''Hat | warm | Hats,Wool'',
                       metadata = [''name'' \<mapsto> PyObj ''Hat'', ''pk'' \<mapsto> PyNone]\<rparr>"

text \<open>
  An embedding endpoint whose call for the batch starting at index \<open>fail_at\<close> fails,
  a splitter that makes one chunk per character, and image services.
\<close>

definition example_client :: "nat \<Rightarrow> nat \<Rightarrow> string list \<Rightarrow> string \<Rightarrow> error + vec list" where
  "example_client fail_at i batch query_type =
     (if i = fail_at then Inl (RemoteError ''down'')
      else Inr (map (\<lambda>chunk. [real (length chunk), 1]) batch))"

definition example_embedder :: embedder where
  "example_embedder =
     \<lparr>split_text = (\<lambda>text. map (\<lambda>c. [c]) text), text_client = example_client 32\<rparr>"

definition example_imaging :: imaging where
  "example_imaging =
     \<lparr>http_get = (\<lambda>url. if url = ''http://ok'' then Inr (''image/png'', ''raw'')
                         else Inl (RemoteError ''404'')),
      read_file = (\<lambda>path. Inl (RemoteError ''no such file'')),
      b64decode = (\<lambda>s. Inr ''raw''),
      encode_jpeg = (\<lambda>content. Inr ''QUJD''),
      image_client = (\<lambda>i valid_inputs. Inr (map (\<lambda>d. [real (length d)]) valid_inputs))\<rparr>"

text \<open>Image services whose fetched image is still 65536 characters long once encoded.\<close>

definition example_big_imaging :: imaging where
  "example_big_imaging =
     \<lparr>http_get = (\<lambda>url. Inr (''image/jpeg'', ''big'')),
      read_file = (\<lambda>path. Inl (RemoteError ''no such file'')),
      b64decode = (\<lambda>s. Inr ''raw''),
      encode_jpeg = (\<lambda>content. Inr (replicate 65536 CHR ''A'')),
      image_client = (\<lambda>i valid_inputs. Inr (map (\<lambda>d. [real (length d)]) valid_inputs))\<rparr>"

definition example_row :: csv_row where
  "example_row =
     \<lparr>row_name = ''a'', row_description = ''b'', row_category = ''c'', row_subcategory = ''d'',
      row_image = ''http://ok''\<rparr>"

text \<open>
  Image services whose embedding endpoint is down, and the stores of three moments: before
  the first start-up, after a start-up during which the image endpoint was down, and
  after the start-up that follows.
\<close>

definition example_failing_imaging :: imaging where
  "example_failing_imaging =
     \<lparr>http_get = (\<lambda>url. if url = ''http://ok'' then Inr (''image/png'', ''raw'')
                         else Inl (RemoteError ''404'')),
      read_file = (\<lambda>path. Inl (RemoteError ''no such file'')),
      b64decode = (\<lambda>s. Inr ''raw''),
      encode_jpeg = (\<lambda>content. Inr ''QUJD''),
      image_client = (\<lambda>i valid_inputs. Inl (RemoteError ''down''))\<rparr>"

definition example_empty_stores :: stores where
  "example_empty_stores =
     \<lparr>text_store = \<lparr>col = None, flush_fails = False\<rparr>,
      image_store = \<lparr>col = None, flush_fails = False\<rparr>\<rparr>"

definition example_text_only_stores :: stores where
  "example_text_only_stores =
     \<lparr>text_store = \<lparr>col = Some [(''a | b | c,d'', [1, 1], example_row)], flush_fails = False\<rparr>,
      image_store = \<lparr>col = None, flush_fails = False\<rparr>\<rparr>"

definition example_duplicated_stores :: stores where
  "example_duplicated_stores =
     \<lparr>text_store = \<lparr>col = Some [(''a | b | c,d'', [1, 1], example_row),
                                  (''a | b | c,d'', [1, 1], example_row)],
                     flush_fails = False\<rparr>,
      image_store = \<lparr>col = Some [(''http://ok'', [26], example_row)], flush_fails = False\<rparr>\<rparr>"

text \<open>
  An embedder that makes one chunk of a non-empty text and none of an empty one, and
  whose first call fails; thirty-five texts, their chunks and chunk counts, and the
  embeddings expected for them.
\<close>

definition example_word_embedder :: embedder where
  "example_word_embedder =
     \<lparr>split_text = (\<lambda>text. if text = [] then [] else [text]), text_client = example_client 0\<rparr>"

definition example_texts :: "string list" where
  "example_texts = replicate 32 ''a'' @ [''bb'', [], ''ccc'']"

definition example_chunks :: "string list" where
  "example_chunks = replicate 32 ''a'' @ [''bb'', ''ccc'']"

definition example_counts :: "nat list" where
  "example_counts = replicate 32 1 @ [1, 0, 1]"

definition example_text_embeddings :: "vec option list" where
  "example_text_embeddings = replicate 32 None @ [Some [2, 1], None, Some [3, 1]]"

section \<open>Ranking: bounds, threshold, order and distinct ids\<close>


lemma py_take_map: "py_take k (map f xs) = map f (py_take k xs)"
  by (simp add: py_take_def take_map)

lemma py_take_eq_take: "py_take k xs = take (if 0 \<le> k then nat k else length xs - nat (- k)) xs"
  by (simp add: py_take_def)

lemma length_py_take: "0 \<le> k \<Longrightarrow> int (length (py_take k xs)) \<le> k"
  by (simp add: py_take_def)

lemma threshold_topk_map:
  "threshold_topk thr k (map f rows) (map g rows) = map f (filter (\<lambda>row. g row > thr) (py_take k rows))"
  by (simp add: threshold_topk_def py_take_map zip_map_map zip_same_conv_map filter_map comp_def)

lemma filter_py_take_map:
  "filter (\<lambda>sim. sim > thr) (py_take k (map g rows)) = map g (filter (\<lambda>row. g row > thr) (py_take k rows))"
  by (simp add: py_take_map filter_map comp_def)

lemma set_sorted_reverse: "set (sorted_reverse key xs) = set xs"
  by (simp add: sorted_reverse_def)

lemma length_sorted_reverse: "length (sorted_reverse key xs) = length xs"
  by (simp add: sorted_reverse_def)

lemma distinct_sorted_reverse: "distinct (sorted_reverse key xs) = distinct xs"
  by (simp add: sorted_reverse_def)

lemma sorted_reverse_descending: "sorted_wrt (\<lambda>a b. key a \<ge> key b) (sorted_reverse key xs)"
proof -
  have "sorted (map key (sort_key key (rev xs)))" by (rule sorted_sort_key)
  then have "sorted_wrt (\<lambda>a b. key a \<le> key b) (sort_key key (rev xs))"
    by (simp add: sorted_wrt_map)
  then show ?thesis by (simp add: sorted_reverse_def sorted_wrt_rev)
qed

lemma zip5_map:
  "zip (map s rows) (zip (map t rows) (zip (map i rows) (zip (map n rows) (map m rows))))
   = map (\<lambda>row. (s row, t row, i row, n row, m row)) rows"
  by (induction rows) auto

lemma rank_results_rows:
  "rank_results thr k (map t rows, map i rows, map s rows, map n rows, map m rows) =
     (let z = py_take k (sorted_reverse fst (map (\<lambda>row. (s row, t row, i row, n row, m row))
                 (filter (\<lambda>row. s row > thr) (py_take k rows))))
      in (map (\<lambda>(sim, text, ident, name, img). text) z,
          map (\<lambda>(sim, text, ident, name, img). ident) z,
          map (\<lambda>(sim, text, ident, name, img). sim) z,
          map (\<lambda>(sim, text, ident, name, img). name) z,
          map (\<lambda>(sim, text, ident, name, img). img) z))"
  unfolding rank_results_def Let_def prod.case threshold_topk_map filter_py_take_map zip5_map
  by (simp only: py_take_map)

lemma distinct_map_sorted_reverse:
  "distinct (map f (sorted_reverse key xs)) = distinct (map f xs)"
  by (simp add: distinct_map distinct_sorted_reverse set_sorted_reverse)

lemma distinct_map_py_take: "distinct (map f xs) \<Longrightarrow> distinct (map f (py_take k xs))"
  by (simp add: py_take_eq_take take_map [symmetric])

lemma distinct_map_filter': "distinct (map f xs) \<Longrightarrow> distinct (map f (filter P xs))"
  by (rule distinct_map_filter)

lemma set_py_take_subset: "set (py_take k xs) \<subseteq> set xs"
  by (simp add: py_take_eq_take set_take_subset)

lemma sorted_wrt_py_take: "sorted_wrt P xs \<Longrightarrow> sorted_wrt P (py_take k xs)"
  by (simp add: py_take_eq_take sorted_wrt_take)

lemma ranked_window_props:
  fixes s :: "'r \<Rightarrow> real"
  assumes z_def: "z = py_take k (sorted_reverse fst (map (\<lambda>row. (s row, t row, i row, n row, m row))
                 (filter (\<lambda>row. s row > thr) (py_take k rows))))"
  shows "\<forall>x\<in>set z. fst x > thr"
    and "sorted_wrt (\<lambda>a b. fst a \<ge> fst b) z"
    and "0 \<le> k \<Longrightarrow> int (length z) \<le> k"
    and "distinct (map i rows) \<Longrightarrow> distinct (map (\<lambda>(sim, text, ident, name, img). ident) z)"
proof -
  let ?h = "\<lambda>row. (s row, t row, i row, n row, m row)"
  let ?R = "filter (\<lambda>row. s row > thr) (py_take k rows)"
  have "set z \<subseteq> set (map ?h ?R)"
    unfolding z_def using set_py_take_subset [of k "sorted_reverse fst (map ?h ?R)"]
    by (simp only: set_sorted_reverse)
  then show "\<forall>x\<in>set z. fst x > thr" by auto
  show "sorted_wrt (\<lambda>a b. fst a \<ge> fst b) z"
    unfolding z_def by (rule sorted_wrt_py_take) (rule sorted_reverse_descending)
  show "0 \<le> k \<Longrightarrow> int (length z) \<le> k"
    unfolding z_def by (rule length_py_take)
  show "distinct (map (\<lambda>(sim, text, ident, name, img). ident) z)" if d: "distinct (map i rows)"
  proof -
    have "distinct (map i ?R)"
      using d by (intro distinct_map_filter distinct_map_py_take)
    then have "distinct (map (\<lambda>(sim, text, ident, name, img). ident) (map ?h ?R))"
      by (simp add: comp_def)
    then show ?thesis
      unfolding z_def by (intro distinct_map_py_take) (simp only: distinct_map_sorted_reverse)
  qed
qed

lemma lookup_all_Inr:
  "lookup_all key rs = Inr vs \<Longrightarrow> vs = map (\<lambda>res. the (metadata (fst res) key)) rs"
  by (induction rs arbitrary: vs) (auto simp: py_index_def split: option.splits sum.splits)

lemma format_results_Inr:
  assumes "format_results rs = Inr (texts, ids, sims, names, images)"
  shows "\<exists>t n m. texts = map t rs
           \<and> ids = map (\<lambda>res. py_str (the (metadata (fst res) ''pk''))) rs
           \<and> sims = map snd rs \<and> names = map n rs \<and> images = map m rs"
proof -
  from assms obtain prices pks where
    p: "lookup_all ''price'' rs = Inr prices" and k: "lookup_all ''pk'' rs = Inr pks"
    and n: "lookup_all ''name'' rs = Inr names" and m: "lookup_all ''image'' rs = Inr images"
    and t: "texts = map (\<lambda>(res, price). page_content (fst res) @ [CHR 0x0A] @ ''PRICE: '' @ py_str price)
                       (zip rs prices)"
    and i: "ids = map py_str pks" and s: "sims = map snd rs"
    by (auto simp: format_results_def split: sum.splits)
  have "texts = map (\<lambda>res. page_content (fst res) @ [CHR 0x0A] @ ''PRICE: ''
                    @ py_str (the (metadata (fst res) ''price''))) rs"
    unfolding t lookup_all_Inr [OF p] by (simp add: zip_map2 zip_same_conv_map comp_def)
  moreover have "ids = map (\<lambda>res. py_str (the (metadata (fst res) ''pk''))) rs"
    unfolding i lookup_all_Inr [OF k] by simp
  ultimately show ?thesis
    using s lookup_all_Inr [OF n] lookup_all_Inr [OF m] by blast
qed

lemma deduplicate_member:
  "res \<in> set (deduplicate seen rs) \<Longrightarrow> res \<in> set rs \<and> (\<exists>i. pk_id res = Some i \<and> i \<notin> seen)"
  by (induction rs arbitrary: seen) (auto split: option.splits if_splits)

lemma deduplicate_distinct: "distinct (map pk_id (deduplicate seen rs))"
proof (induction rs arbitrary: seen)
  case Nil
  show ?case by simp
next
  case (Cons res rest)
  show ?case
  proof (cases "pk_id res")
    case None
    then show ?thesis using Cons.IH by simp
  next
    case (Some i)
    have "Some i \<notin> pk_id ` set (deduplicate (insert i seen) rest)"
      using deduplicate_member [of _ "insert i seen" rest] by force
    then show ?thesis using Some Cons.IH by simp
  qed
qed

lemma pk_id_Some: "pk_id res = Some i \<Longrightarrow> py_str (the (metadata (fst res) ''pk'')) = i"
  by (auto simp: pk_id_def py_get_def split: option.splits pyval.splits)

lemma deduplicate_distinct_ids:
  "distinct (map (\<lambda>res. py_str (the (metadata (fst res) ''pk''))) (deduplicate seen rs))"
proof -
  let ?ds = "deduplicate seen rs"
  have "map (\<lambda>res. py_str (the (metadata (fst res) ''pk''))) ?ds = map the (map pk_id ?ds)"
  proof -
    have "py_str (the (metadata (fst res) ''pk'')) = the (pk_id res)" if "res \<in> set ?ds" for res
    proof -
      from deduplicate_member [OF that] obtain i where "pk_id res = Some i" by blast
      then show ?thesis using pk_id_Some [of res i] by simp
    qed
    then show ?thesis by simp
  qed
  moreover have "inj_on the (set (map pk_id ?ds))"
  proof (rule inj_onI)
    fix a b assume a: "a \<in> set (map pk_id ?ds)" and b: "b \<in> set (map pk_id ?ds)"
      and eq: "the a = the b"
    from a deduplicate_member [of _ seen rs] obtain i where "a = Some i" by auto
    moreover from b deduplicate_member [of _ seen rs] obtain j where "b = Some j" by auto
    ultimately show "a = b" using eq by simp
  qed
  ultimately show ?thesis
    using deduplicate_distinct [of seen rs] by (simp only: distinct_map)
qed

lemma zip6_map:
  "zip (map t z) (zip (map i z) (zip (map s z) (zip (map n z) (zip (map m z) (map c z)))))
   = map (\<lambda>row. (t row, i row, s row, n row, m row, c row)) z"
  by (induction z) auto

lemma category_filter_rows:
  "category_filter categories (map t z, map i z, map s z, map n z, map m z) =
     (let z' = filter (\<lambda>row. match_found categories (parse_categories (t row))) z
      in (map t z', map i z', map s z', map n z', map m z'))"
proof -
  have "map parse_categories (map t z) = map (\<lambda>row. parse_categories (t row)) z" by simp
  then show ?thesis
    unfolding category_filter_def Let_def prod.case
    by (simp only: zip6_map) (simp add: filter_map comp_def)
qed

lemma ranked_results_window:
  assumes "ranked_results r query image_str k image_bool verbose = Inr ranked"
  shows "\<exists>(z :: (real \<times> string \<times> string \<times> pyval \<times> pyval) list).
           (\<forall>x\<in>set z. fst x > sim_threshold r)
         \<and> sorted_wrt (\<lambda>a b. fst a \<ge> fst b) z
         \<and> (0 \<le> k \<longrightarrow> int (length z) \<le> k)
         \<and> distinct (map (\<lambda>(sim, text, ident, name, img). ident) z)
         \<and> ranked = (map (\<lambda>(sim, text, ident, name, img). text) z,
                      map (\<lambda>(sim, text, ident, name, img). ident) z,
                      map (\<lambda>(sim, text, ident, name, img). sim) z,
                      map (\<lambda>(sim, text, ident, name, img). name) z,
                      map (\<lambda>(sim, text, ident, name, img). img) z)"
proof -
  let ?i = "\<lambda>res :: scored. py_str (the (metadata (fst res) ''pk''))"
  from assms obtain u formatted where
    f: "format_results (deduplicate {} u) = Inr formatted"
    and ranked: "ranked = rank_results (sim_threshold r) k formatted"
    by (auto simp: ranked_results_def select_results_def Let_def split: sum.splits)
  obtain texts ids sims names images where formatted: "formatted = (texts, ids, sims, names, images)"
    by (cases formatted) auto
  from format_results_Inr [OF f [unfolded formatted]] obtain t n m where
    maps: "texts = map t (deduplicate {} u)" "ids = map ?i (deduplicate {} u)"
          "sims = map snd (deduplicate {} u)" "names = map n (deduplicate {} u)"
          "images = map m (deduplicate {} u)"
    by blast
  define z where "z = py_take k (sorted_reverse fst (map (\<lambda>row. (snd row, t row, ?i row, n row, m row))
                 (filter (\<lambda>row. snd row > sim_threshold r) (py_take k (deduplicate {} u)))))"
  have "ranked = (map (\<lambda>(sim, text, ident, name, img). text) z,
                  map (\<lambda>(sim, text, ident, name, img). ident) z,
                  map (\<lambda>(sim, text, ident, name, img). sim) z,
                  map (\<lambda>(sim, text, ident, name, img). name) z,
                  map (\<lambda>(sim, text, ident, name, img). img) z)"
    unfolding ranked formatted maps rank_results_rows z_def Let_def ..
  moreover have "distinct (map (\<lambda>(sim, text, ident, name, img). ident) z)"
    using ranked_window_props(4) [OF z_def deduplicate_distinct_ids] .
  moreover note ranked_window_props(1-2) [OF z_def]
  moreover have "0 \<le> k \<longrightarrow> int (length z) \<le> k"
    using ranked_window_props(3) [OF z_def] by blast
  ultimately show ?thesis by blast
qed

lemma filtered_window_props:
  fixes z :: "(real \<times> string \<times> string \<times> pyval \<times> pyval) list"
  assumes "\<forall>x\<in>set z. fst x > thr"
    and "sorted_wrt (\<lambda>a b. fst a \<ge> fst b) z"
    and "0 \<le> k \<longrightarrow> int (length z) \<le> k"
    and "distinct (map (\<lambda>(sim, text, ident, name, img). ident) z)"
  shows "(0 \<le> k \<longrightarrow> int (length (map (\<lambda>(sim, text, ident, name, img). sim) (filter Q z))) \<le> k)
       \<and> (\<forall>sim\<in>set (map (\<lambda>(sim, text, ident, name, img). sim) (filter Q z)). sim > thr)
       \<and> sorted_wrt (\<ge>) (map (\<lambda>(sim, text, ident, name, img). sim) (filter Q z))
       \<and> distinct (map (\<lambda>(sim, text, ident, name, img). ident) (filter Q z))"
proof -
  have eq: "(\<lambda>(sim, text, ident, name, img). sim) = (fst :: real \<times> string \<times> string \<times> pyval \<times> pyval \<Rightarrow> real)"
    by auto
  have "length (filter Q z) \<le> length z" by simp
  then have "0 \<le> k \<longrightarrow> int (length (filter Q z)) \<le> k" using assms(3) by linarith
  moreover have "\<forall>x\<in>set (filter Q z). fst x > thr" using assms(1) by simp
  moreover have "sorted_wrt (\<lambda>a b. fst a \<ge> fst b) (filter Q z)"
    using assms(2) by (rule sorted_wrt_filter)
  moreover have "distinct (map (\<lambda>(sim, text, ident, name, img). ident) (filter Q z))"
    using assms(4) by (rule distinct_map_filter)
  ultimately show ?thesis
    unfolding eq by (simp add: sorted_wrt_map)
qed

text \<open>
  Claim C2. Whenever \<open>retrieve\<close> returns, the five result lists have the same length,
  which is at most \<open>k\<close> (for a non-negative \<open>k\<close>: the index is asked for \<open>k\<close> or
  \<open>k * n\<close> candidates, and a negative number bounds no length); every returned
  similarity is strictly greater than \<open>sim_threshold\<close>; the similarities are in
  descending order; and no id occurs twice.
\<close>

theorem retrieve_ranked:
  assumes "retrieve r query categories image_str k image_bool verbose
             = Inr (texts, ids, sims, names, images)"
  shows "length texts = length sims \<and> length ids = length sims
       \<and> length names = length sims \<and> length images = length sims
       \<and> (0 \<le> k \<longrightarrow> int (length sims) \<le> k)
       \<and> (\<forall>sim\<in>set sims. sim > sim_threshold r)
       \<and> sorted_wrt (\<ge>) sims
       \<and> distinct ids"
proof -
  from assms obtain ranked where
    rr: "ranked_results r query image_str k image_bool verbose = Inr ranked"
    and res: "(texts, ids, sims, names, images) =
                (if image_bool then ranked
                 else if categories = [] then ([], [], [], [], [])
                 else category_filter categories ranked)"
    by (auto simp: retrieve_def split: sum.splits if_splits)
  from ranked_results_window [OF rr] obtain z :: "(real \<times> string \<times> string \<times> pyval \<times> pyval) list" where
    z: "\<forall>x\<in>set z. fst x > sim_threshold r" "sorted_wrt (\<lambda>a b. fst a \<ge> fst b) z"
       "0 \<le> k \<longrightarrow> int (length z) \<le> k"
       "distinct (map (\<lambda>(sim, text, ident, name, img). ident) z)"
    and ranked: "ranked = (map (\<lambda>(sim, text, ident, name, img). text) z,
                      map (\<lambda>(sim, text, ident, name, img). ident) z,
                      map (\<lambda>(sim, text, ident, name, img). sim) z,
                      map (\<lambda>(sim, text, ident, name, img). name) z,
                      map (\<lambda>(sim, text, ident, name, img). img) z)"
    by blast
  have "\<exists>Q. (texts, ids, sims, names, images) =
             (map (\<lambda>(sim, text, ident, name, img). text) (filter Q z),
              map (\<lambda>(sim, text, ident, name, img). ident) (filter Q z),
              map (\<lambda>(sim, text, ident, name, img). sim) (filter Q z),
              map (\<lambda>(sim, text, ident, name, img). name) (filter Q z),
              map (\<lambda>(sim, text, ident, name, img). img) (filter Q z))"
  proof (cases image_bool)
    case True
    then have "(texts, ids, sims, names, images) = ranked" using res by simp
    then show ?thesis unfolding ranked by (intro exI [of _ "\<lambda>x. True"]) simp
  next
    case False
    show ?thesis
    proof (cases "categories = []")
      case True
      then have "(texts, ids, sims, names, images) = ([], [], [], [], [])"
        using res \<open>\<not> image_bool\<close> by simp
      then show ?thesis by (intro exI [of _ "\<lambda>x. False"]) simp
    next
      case False
      then have "(texts, ids, sims, names, images) = category_filter categories ranked"
        using res \<open>\<not> image_bool\<close> by simp
      then show ?thesis
        unfolding ranked category_filter_rows Let_def
        by (intro exI [of _ "\<lambda>row. match_found categories
               (parse_categories ((\<lambda>(sim, text, ident, name, img). text) row))"]) simp
    qed
  qed
  then obtain Q where out:
    "texts = map (\<lambda>(sim, text, ident, name, img). text) (filter Q z)"
    "ids = map (\<lambda>(sim, text, ident, name, img). ident) (filter Q z)"
    "sims = map (\<lambda>(sim, text, ident, name, img). sim) (filter Q z)"
    "names = map (\<lambda>(sim, text, ident, name, img). name) (filter Q z)"
    "images = map (\<lambda>(sim, text, ident, name, img). img) (filter Q z)"
    by blast
  have "length texts = length sims \<and> length ids = length sims
       \<and> length names = length sims \<and> length images = length sims"
    unfolding out by simp
  then show ?thesis
    using filtered_window_props [OF z, of Q] unfolding out by blast
qed


section \<open>Category policy, deduplication, dispatch and fusion\<close>

lemma set_interleave: "set (interleave q) = \<Union> (set ` set q)"
  by (induction q rule: interleave.induct) auto

lemma set_fuse: "set (fuse image_bool q) = \<Union> (set ` set q)"
  by (simp add: fuse_def set_interleave set_sorted_reverse)

lemma lookup_all_total:
  "\<forall>res\<in>set rs. metadata (fst res) key \<noteq> None \<Longrightarrow> \<exists>vs. lookup_all key rs = Inr vs"
  by (induction rs) (auto simp: py_index_def)

lemma log_names_total:
  "\<forall>res\<in>set rs. metadata (fst res) ''name'' \<noteq> None \<Longrightarrow> log_names verbose rs = Inr ()"
  using lookup_all_total [of rs "''name''"] by (auto simp: log_names_def)

lemma pk_id_present: "pk_id res = Some i \<Longrightarrow> metadata (fst res) ''pk'' \<noteq> None"
  by (auto simp: pk_id_def py_get_def split: option.splits)

lemma gather_total:
  "\<forall>req\<in>set reqs. \<exists>res. run_search r req = Inr res \<and> P res
   \<Longrightarrow> \<exists>rs. gather r reqs = Inr rs \<and> (\<forall>res\<in>set rs. P res)"
proof (induction reqs)
  case Nil
  show ?case by simp
next
  case (Cons req reqs)
  from Cons.prems obtain res where "run_search r req = Inr res" "P res" by auto
  moreover from Cons obtain rs where "gather r reqs = Inr rs" "\<forall>res\<in>set rs. P res" by auto
  ultimately show ?case by simp
qed

lemma select_results_total:
  assumes "\<forall>c\<in>set xs. {''name'', ''price'', ''image''} \<subseteq> dom (metadata (fst c))"
  shows "\<exists>ranked. select_results thr k verbose xs = Inr ranked"
proof -
  let ?ds = "deduplicate {} xs"
  have keys: "metadata (fst c) ''name'' \<noteq> None \<and> metadata (fst c) ''price'' \<noteq> None
            \<and> metadata (fst c) ''image'' \<noteq> None \<and> metadata (fst c) ''pk'' \<noteq> None"
    if "c \<in> set ?ds" for c
  proof -
    from deduplicate_member [OF that] obtain i where "c \<in> set xs" "pk_id c = Some i" by blast
    then show ?thesis using assms pk_id_present [of c i] by (auto simp: dom_def)
  qed
  have "log_names verbose ?ds = Inr ()" using keys by (intro log_names_total) blast
  moreover obtain prices where "lookup_all ''price'' ?ds = Inr prices"
    using lookup_all_total [of ?ds "''price''"] keys by blast
  moreover obtain pks where "lookup_all ''pk'' ?ds = Inr pks"
    using lookup_all_total [of ?ds "''pk''"] keys by blast
  moreover obtain names where "lookup_all ''name'' ?ds = Inr names"
    using lookup_all_total [of ?ds "''name''"] keys by blast
  moreover obtain images where "lookup_all ''image'' ?ds = Inr images"
    using lookup_all_total [of ?ds "''image''"] keys by blast
  ultimately have "select_results thr k verbose xs =
      Inr (rank_results thr k
             (map (\<lambda>(res, price). page_content (fst res) @ [CHR 0x0A] @ ''PRICE: '' @ py_str price)
                  (zip ?ds prices),
              map py_str pks, map snd ?ds, names, images))"
    by (simp add: select_results_def format_results_def Let_def)
  then show ?thesis by (rule exI)
qed

lemma ranked_results_total:
  assumes "\<forall>req\<in>set (dispatch query image_str k image_bool).
             \<exists>res. run_search r req = Inr res
                 \<and> (\<forall>c\<in>set res. {''name'', ''price'', ''image''} \<subseteq> dom (metadata (fst c)))"
  shows "\<exists>ranked. ranked_results r query image_str k image_bool verbose = Inr ranked"
proof -
  let ?K = "\<lambda>c :: scored. {''name'', ''price'', ''image''} \<subseteq> dom (metadata (fst c))"
  from gather_total [of _ r "\<lambda>res. \<forall>c\<in>set res. ?K c", OF assms] obtain rs where
    g: "gather r (dispatch query image_str k image_bool) = Inr rs"
    and k: "\<forall>res\<in>set rs. \<forall>c\<in>set res. ?K c" by blast
  let ?sorted = "map (sorted_reverse snd) rs"
  have all: "\<forall>c \<in> \<Union> (set ` set ?sorted). ?K c"
    using k by (auto simp: set_sorted_reverse)
  then have "\<forall>c\<in>set (concat ?sorted). metadata (fst c) ''name'' \<noteq> None"
    by (auto simp: dom_def)
  then have "log_names verbose (concat ?sorted) = Inr ()" by (rule log_names_total)
  moreover have "\<exists>ranked. select_results (sim_threshold r) k verbose (fuse image_bool ?sorted) = Inr ranked"
    using all by (intro select_results_total) (simp only: set_fuse)
  ultimately show ?thesis using g by (simp add: ranked_results_def)
qed

text \<open>
  Claim C3. In text-only mode with an empty list of category terms, \<open>retrieve\<close> returns
  five empty lists whatever the ranked candidates are (and it does return when every
  search succeeds on records that carry a name, a price and an image); in image mode the
  category stage is skipped and the ranked candidates are returned as they are, whatever
  the category terms.
\<close>

theorem retrieve_category_policy:
  "retrieve r query [] image_str k False verbose
     = (case ranked_results r query image_str k False verbose of
          Inl e \<Rightarrow> Inl e
        | Inr ranked \<Rightarrow> Inr ([], [], [], [], []))
   \<and> retrieve r query categories image_str k True verbose
       = ranked_results r query image_str k True verbose
   \<and> ((\<forall>req\<in>set (dispatch query image_str k False).
          \<exists>res. run_search r req = Inr res
              \<and> (\<forall>c\<in>set res. {''name'', ''price'', ''image''} \<subseteq> dom (metadata (fst c))))
        \<longrightarrow> retrieve r query [] image_str k False verbose = Inr ([], [], [], [], []))"
proof -
  have a: "retrieve r query [] image_str k False verbose
     = (case ranked_results r query image_str k False verbose of
          Inl e \<Rightarrow> Inl e
        | Inr ranked \<Rightarrow> Inr ([], [], [], [], []))"
    by (simp add: retrieve_def split: sum.splits)
  have b: "retrieve r query categories image_str k True verbose
       = ranked_results r query image_str k True verbose"
    by (simp add: retrieve_def split: sum.splits)
  have c: "retrieve r query [] image_str k False verbose = Inr ([], [], [], [], [])"
    if "\<forall>req\<in>set (dispatch query image_str k False).
          \<exists>res. run_search r req = Inr res
              \<and> (\<forall>c\<in>set res. {''name'', ''price'', ''image''} \<subseteq> dom (metadata (fst c)))"
    using ranked_results_total [OF that, of verbose] a by auto
  from a b c show ?thesis by blast
qed

lemma deduplicate_filter:
  "deduplicate seen (filter (\<lambda>res. pk_id res \<noteq> None) xs) = deduplicate seen xs"
  by (induction xs arbitrary: seen) (auto split: option.splits)

lemma deduplicate_snoc:
  "deduplicate seen (xs @ [res]) =
     deduplicate seen xs @
       (case pk_id res of
          None \<Rightarrow> []
        | Some i \<Rightarrow> if i \<notin> seen \<and> Some i \<notin> pk_id ` set xs then [res] else [])"
  by (induction xs arbitrary: seen) (auto split: option.splits)

text \<open>
  Claim C10. Deduplication keeps no candidate whose \<open>pk\<close> is missing or \<open>None\<close>:
  everything after fusion (threshold, ranking, the returned lists) is the same as if those
  candidates had been removed from the fused list, whatever their similarity. A candidate
  is kept exactly when it has an id that no earlier candidate has.
\<close>

theorem deduplicate_requires_pk:
  "(\<forall>res\<in>set (deduplicate {} interleaved_results). pk_id res \<noteq> None)
   \<and> select_results thr k verbose interleaved_results
       = select_results thr k verbose (filter (\<lambda>res. pk_id res \<noteq> None) interleaved_results)
   \<and> deduplicate {} (interleaved_results @ [res])
       = deduplicate {} interleaved_results @
           (if pk_id res \<noteq> None \<and> pk_id res \<notin> pk_id ` set interleaved_results then [res] else [])"
proof -
  have "\<forall>res\<in>set (deduplicate {} interleaved_results). pk_id res \<noteq> None"
    using deduplicate_member [of _ "{}" interleaved_results] by auto
  moreover have "select_results thr k verbose interleaved_results
       = select_results thr k verbose (filter (\<lambda>res. pk_id res \<noteq> None) interleaved_results)"
    unfolding select_results_def deduplicate_filter ..
  moreover have "deduplicate {} (interleaved_results @ [res])
       = deduplicate {} interleaved_results @
           (if pk_id res \<noteq> None \<and> pk_id res \<notin> pk_id ` set interleaved_results then [res] else [])"
    by (cases "pk_id res") (simp_all add: deduplicate_snoc)
  ultimately show ?thesis by blast
qed

text \<open>
  Claim C1, evaluated at an empty caller-supplied query list. One query (the placeholder)
  is searched, but the requested number of candidates is computed from the length of the
  caller's list, which is zero: the text-only search of the placeholder asks for \<open>0\<close>
  candidates, and in image mode the image search asks for \<open>0\<close>.
\<close>

theorem dispatch_empty_query:
  "dispatch [] [] 4 False = [TextSearch placeholder_query 0]
   \<and> dispatch [] [] 4 True = [TextSearch placeholder_query 4, ImageSearch [] 0]
   \<and> length (local_queries []) = 1
   \<and> map requested (dispatch [] [] 4 False) \<noteq> [4 * int (length (local_queries []))]"
  by (simp add: dispatch_def local_queries_def)

text \<open>
  For a caller-supplied list that is not empty, the queries searched are the caller's and
  the requested numbers are \<open>k * n\<close> and \<open>k\<close> as intended.
\<close>

lemma dispatch_nonempty_query:
  assumes "query \<noteq> []"
  shows "map requested (dispatch query image_str k False)
           = replicate (length (local_queries query)) (k * int (length (local_queries query)))"
    and "map requested (dispatch query image_str k True)
           = replicate (length (local_queries query)) k @ [k * int (length (local_queries query))]"
  using assms by (simp_all add: dispatch_def local_queries_def comp_def map_replicate_const)

lemma interleave_append:
  "interleave (q @ r) = map hd (filter (\<lambda>l. l \<noteq> []) q) @ interleave (r @ map tl (filter (\<lambda>l. l \<noteq> []) q))"
proof (induction q arbitrary: r)
  case Nil
  show ?case by simp
next
  case (Cons l q)
  show ?case
  proof (cases l)
    case Nil
    then show ?thesis using Cons.IH [of r] by simp
  next
    case (Cons x xs)
    then show ?thesis using Cons.IH [of "r @ [xs]"] by simp
  qed
qed

lemma interleave_round: 
  "interleave q = map hd (filter (\<lambda>l. l \<noteq> []) q) @ interleave (map tl (filter (\<lambda>l. l \<noteq> []) q))"
  using interleave_append [of q "[]"] by simp

lemma interleave_round_robin: "interleave queues = round_robin queues"
proof (induction queues rule: round_robin.induct)
  case (1 queues)
  show ?case
  proof (cases "filter (\<lambda>l. l \<noteq> []) queues = []")
    case True
    then show ?thesis
      using interleave_round [of queues] by (simp add: round_robin.simps [of queues])
  next
    case False
    then show ?thesis
      using interleave_round [of queues] "1.IH" [OF refl False]
      by (simp add: round_robin.simps [of queues] Let_def)
  qed
qed

text \<open>
  Claim C4. In text-only mode the fusion is the round-robin interleaving of the per-query
  lists: round after round, the head of each non-exhausted list in list order. For the
  score lists \<open>[0.9, 0.8]\<close> and \<open>[0.85, 0.7]\<close> the fused order is
  \<open>[0.9, 0.85, 0.8, 0.7]\<close>.
\<close>

theorem fuse_text_only_round_robin:
  "fuse False queues = round_robin queues
   \<and> fuse False [[(a, 0.9), (b, 0.8)], [(c, 0.85), (d, 0.7)]]
       = [(a, 0.9), (c, 0.85), (b, 0.8), (d, 0.7)]"
  by (simp add: fuse_def interleave_round_robin [symmetric])


theorem retrieve_ranked_witness:
  "retrieve example_retriever [''red shoes'', ''blue shoes''] [''shoes''] [] 4 False True
     = Inr ([''Shoe | nice | Shoes,Red'' @ [CHR 0x0A] @ ''PRICE: 9.5'',
             ''Shoe | nice | Shoes,Blue'' @ [CHR 0x0A] @ ''PRICE: 9.5'',
             ''Shoe | nice | Shoes,Red'' @ [CHR 0x0A] @ ''PRICE: 9.5''],
            [''1'', ''3'', ''2''], [0.9, 0.85, 0.8],
            [PyObj ''Shoe'', PyObj ''Shoe'', PyObj ''Shoe''],
            [PyObj ''/i.jpg'', PyObj ''/i.jpg'', PyObj ''/i.jpg''])
   \<and> (0::int) \<le> 4 \<and> int (length [0.9, 0.85, 0.8 :: real]) \<le> 4
   \<and> 0.9 > sim_threshold example_retriever
   \<and> 0.85 > sim_threshold example_retriever
   \<and> 0.8 > sim_threshold example_retriever
   \<and> sorted_wrt (\<ge>) [0.9, 0.85, 0.8 :: real]
   \<and> distinct [''1'', ''3'', ''2'']"
proof -
  have h: "retrieve example_retriever [''red shoes'', ''blue shoes''] [''shoes''] [] 4 False True
     = Inr ([''Shoe | nice | Shoes,Red'' @ [CHR 0x0A] @ ''PRICE: 9.5'',
             ''Shoe | nice | Shoes,Blue'' @ [CHR 0x0A] @ ''PRICE: 9.5'',
             ''Shoe | nice | Shoes,Red'' @ [CHR 0x0A] @ ''PRICE: 9.5''],
            [''1'', ''3'', ''2''], [0.9, 0.85, 0.8],
            [PyObj ''Shoe'', PyObj ''Shoe'', PyObj ''Shoe''],
            [PyObj ''/i.jpg'', PyObj ''/i.jpg'', PyObj ''/i.jpg''])"
    by code_simp
  from retrieve_ranked [OF h] h show ?thesis by simp
qed

theorem retrieve_category_policy_witness:
  "retrieve example_retriever [''red shoes''] [] [] 4 False True = Inr ([], [], [], [], [])
   \<and> retrieve example_retriever [''red shoes''] [''bags''] [] 4 True True
       = ranked_results example_retriever [''red shoes''] [] 4 True True"
proof -
  have h: "\<forall>req\<in>set (dispatch [''red shoes''] [] 4 False).
      \<exists>res. run_search example_retriever req = Inr res
          \<and> (\<forall>c\<in>set res. {''name'', ''price'', ''image''} \<subseteq> dom (metadata (fst c)))"
    by (simp add: dispatch_def local_queries_def example_retriever_def example_doc_def)
  from retrieve_category_policy [of example_retriever "[''red shoes'']" "[]" 4 True "[''bags'']"] h
  show ?thesis by blast
qed

theorem fuse_text_only_round_robin_witness:
  "fuse False [[(example_doc ''1'' [], 0.9), (example_doc ''2'' [], 0.8)],
               [(example_doc ''3'' [], 0.85), (example_doc ''4'' [], 0.7)]]
     = round_robin [[(example_doc ''1'' [], 0.9), (example_doc ''2'' [], 0.8)],
                    [(example_doc ''3'' [], 0.85), (example_doc ''4'' [], 0.7)]]
   \<and> fuse False [[(example_doc ''1'' [], 0.9), (example_doc ''2'' [], 0.8)],
                  [(example_doc ''3'' [], 0.85), (example_doc ''4'' [], 0.7)]]
       = [(example_doc ''1'' [], 0.9), (example_doc ''3'' [], 0.85),
          (example_doc ''2'' [], 0.8), (example_doc ''4'' [], 0.7)]"
  using fuse_text_only_round_robin
    [of "[[(example_doc ''1'' [], 0.9), (example_doc ''2'' [], 0.8)],
          [(example_doc ''3'' [], 0.85), (example_doc ''4'' [], 0.7)]]"
        "example_doc ''1'' []" "example_doc ''2'' []" "example_doc ''3'' []" "example_doc ''4'' []"]
  by blast

theorem deduplicate_requires_pk_witness:
  "deduplicate {} [(example_no_pk, 0.99), (example_doc ''1'' [], 0.9)] = [(example_doc ''1'' [], 0.9)]
   \<and> pk_id (example_no_pk, 0.99) = None
   \<and> pk_id (example_doc ''1'' [], 0.9) \<noteq> None
   \<and> select_results 0.5 4 False [(example_no_pk, 0.99), (example_doc ''1'' [], 0.9)]
       = select_results 0.5 4 False
           (filter (\<lambda>res. pk_id res \<noteq> None) [(example_no_pk, 0.99), (example_doc ''1'' [], 0.9)])"
proof -
  have d: "deduplicate {} [(example_no_pk, 0.99), (example_doc ''1'' [], 0.9)] = [(example_doc ''1'' [], 0.9)]"
    by (simp add: pk_id_def py_get_def example_no_pk_def example_doc_def)
  have n: "pk_id (example_no_pk, 0.99) = None"
    by (simp add: pk_id_def py_get_def example_no_pk_def)
  from deduplicate_requires_pk [of "[(example_no_pk, 0.99), (example_doc ''1'' [], 0.9)]" "0.5" 4 False
            "(example_no_pk, 1)"]
  have "(\<forall>res\<in>set [(example_doc ''1'' [], 0.9)]. pk_id res \<noteq> None)
      \<and> select_results 0.5 4 False [(example_no_pk, 0.99), (example_doc ''1'' [], 0.9)]
       = select_results 0.5 4 False
           (filter (\<lambda>res. pk_id res \<noteq> None) [(example_no_pk, 0.99), (example_doc ''1'' [], 0.9)])"
    unfolding d by blast
  then show ?thesis using d n by simp
qed

section \<open>Embeddings, normalisation and import\<close>

lemma set_not_none: "set (not_none xs) = {v. Some v \<in> set xs}"
  by (force simp: not_none_def)

lemma set_py_slice_subset: "set (py_slice i j xs) \<subseteq> set xs"
  unfolding py_slice_def by (meson set_take_subset set_drop_subset subset_trans)

lemma mean_axis0_uniform:
  assumes "\<forall>v\<in>set vectors. length v = d" and "vectors \<noteq> []"
  shows "mean_axis0 vectors
           = Inr (map (\<lambda>j. sum_list (map (\<lambda>v. v ! j) vectors) / real (length vectors)) [0..<d])"
proof -
  from assms have "length (hd vectors) = d" by (cases vectors) auto
  then show ?thesis using assms(1) by (simp add: mean_axis0_def list_all_iff)
qed

lemma chunk_offset_Suc:
  "i < length counts \<Longrightarrow> chunk_offset counts (Suc i) = chunk_offset counts i + counts ! i"
  by (simp add: chunk_offset_def take_Suc_conv_app_nth)

lemma reconstruct_from_spec:
  assumes "length texts + i \<le> length counts"
    and "\<forall>v. Some v \<in> set embs \<longrightarrow> length v = d"
    and "idx = chunk_offset counts i"
  shows "\<exists>out. reconstruct_from embs counts i idx texts = Inr out \<and> length out = length texts
           \<and> (\<forall>n<length texts. out ! n = expected_embedding d embs counts (i + n))"
  using assms
proof (induction texts arbitrary: i idx)
  case Nil
  show ?case by simp
next
  case (Cons t texts)
  let ?c = "counts ! i"
  let ?valid = "not_none (py_slice idx (idx + ?c) embs)"
  from Cons.prems have i: "i < length counts" by simp
  have next_idx: "idx + ?c = chunk_offset counts (i + 1)"
    using Cons.prems(3) chunk_offset_Suc [OF i] by simp
  from Cons.IH [of "i + 1" "idx + ?c"] Cons.prems next_idx obtain rest where
    rest: "reconstruct_from embs counts (i + 1) (idx + ?c) texts = Inr rest"
      "length rest = length texts"
      "\<forall>n<length texts. rest ! n = expected_embedding d embs counts (i + 1 + n)"
    by auto
  have uniform: "\<forall>v\<in>set ?valid. length v = d"
    using Cons.prems(2) set_py_slice_subset [of idx "idx + ?c" embs]
    by (auto simp: set_not_none)
  have zero: "?valid = []" if "?c = 0"
    using that by (simp add: py_slice_def not_none_def)
  have head: "expected_embedding d embs counts i
                = (if ?valid = [] then None
                   else Some (map (\<lambda>j. sum_list (map (\<lambda>v. v ! j) ?valid) / real (length ?valid)) [0..<d]))"
    using Cons.prems(3) by (simp add: expected_embedding_def Let_def)
  obtain h where step: "reconstruct_from embs counts i idx (t # texts) = Inr (h # rest)"
    and h: "h = expected_embedding d embs counts i"
  proof (cases "?c = 0")
    case True
    then have "reconstruct_from embs counts i idx (t # texts) = Inr (None # rest)"
      using i rest(1) by simp
    then show ?thesis using that head zero [OF True] by simp
  next
    case False
    show ?thesis
    proof (cases "?valid = []")
      case True
      then have "reconstruct_from embs counts i idx (t # texts) = Inr (None # rest)"
        using i rest(1) False by (simp add: Let_def)
      then show ?thesis using that head True by simp
    next
      case nonempty: False
      then have "reconstruct_from embs counts i idx (t # texts)
                   = Inr (Some (map (\<lambda>j. sum_list (map (\<lambda>v. v ! j) ?valid) / real (length ?valid)) [0..<d]) # rest)"
        using i rest(1) False mean_axis0_uniform [OF uniform nonempty] by (simp add: Let_def)
      then show ?thesis using that head nonempty by simp
    qed
  qed
  have "\<forall>n<length (t # texts). (h # rest) ! n = expected_embedding d embs counts (i + n)"
  proof (intro allI impI)
    fix n assume "n < length (t # texts)"
    then show "(h # rest) ! n = expected_embedding d embs counts (i + n)"
      using h rest(3) by (cases n) auto
  qed
  then show ?case using step rest(2) by simp
qed

lemma length_py_slice: "length (py_slice i j xs) = min (j - i) (length xs - i)"
  by (simp add: py_slice_def)

lemma nth_py_slice: "q < length (py_slice i j xs) \<Longrightarrow> py_slice i j xs ! q = xs ! (i + q)"
  by (auto simp: py_slice_def)

lemma batched_loop:
  fixes F :: "nat \<Rightarrow> 'a list"
  assumes rec: "\<And>i. F i = (if n \<le> i then [] else part i @ F (i + bs))"
    and len: "\<And>i. i < n \<Longrightarrow> length (part i) = min bs (n - i)"
    and bs: "0 < bs"
  shows "bs dvd i \<Longrightarrow> length (F i) = n - i
           \<and> (\<forall>p. i \<le> p \<and> p < n \<longrightarrow> F i ! (p - i) = part (p div bs * bs) ! (p mod bs))"
proof (induction "n - i" arbitrary: i rule: less_induct)
  case less
  show ?case
  proof (cases "n \<le> i")
    case True
    then have "F i = []" using rec [of i] by simp
    then have "length (F i) = n - i" using True by simp
    moreover have "\<forall>p. i \<le> p \<and> p < n \<longrightarrow> F i ! (p - i) = part (p div bs * bs) ! (p mod bs)"
      using True by auto
    ultimately show ?thesis by blast
  next
    case False
    have unfold: "F i = part i @ F (i + bs)" using rec [of i] False by simp
    have lp: "length (part i) = min bs (n - i)" using len [of i] False by simp
    have smaller: "n - (i + bs) < n - i" using False bs by simp
    have dvd: "bs dvd i + bs" using less.prems by simp
    note ih = less.hyps [OF smaller dvd]
    have IH1: "length (F (i + bs)) = n - (i + bs)" using ih by blast
    have IH2: "\<forall>p. i + bs \<le> p \<and> p < n
                 \<longrightarrow> F (i + bs) ! (p - (i + bs)) = part (p div bs * bs) ! (p mod bs)"
      using ih by blast
    have "length (part i @ F (i + bs)) = n - i" using lp IH1 False by auto
    moreover have "(part i @ F (i + bs)) ! (p - i) = part (p div bs * bs) ! (p mod bs)"
      if p: "i \<le> p" "p < n" for p
    proof (cases "p < i + bs")
      case True
      from less.prems obtain m where m: "i = bs * m" by (auto simp: dvd_def)
      have lt: "p - i < bs" using True p by simp
      define q where "q = p - i"
      have pq: "p = bs * m + q" using p m by (simp add: q_def)
      have qb: "q < bs" using lt by (simp add: q_def)
      have d: "p div bs = m" by (subst pq) (use qb in simp)
      have r: "p mod bs = q" by (subst pq) (use qb in simp)
      have start: "p div bs * bs = i" unfolding d m by simp
      have off: "p mod bs = p - i" unfolding r q_def ..
      have in_part: "p - i < length (part i)" using lp lt p by simp
      show ?thesis unfolding start off using in_part by (simp add: nth_append)
    next
      case ge: False
      then have lp': "length (part i) = bs" using lp p by simp
      have nlt: "\<not> p - i < length (part i)" using lp' ge p by linarith
      have sub: "p - i - length (part i) = p - (i + bs)" using lp' by simp
      have "(part i @ F (i + bs)) ! (p - i) = F (i + bs) ! (p - (i + bs))"
        by (simp only: nth_append nlt if_False sub)
      then show ?thesis using IH2 ge p by simp
    qed
    ultimately show ?thesis unfolding unfold by blast
  qed
qed

lemma batch_position:
  fixes bs p n :: nat
  assumes "0 < bs" and "p < n"
  shows "p div bs * bs \<le> p" and "p div bs * bs < n" and "p div bs * bs + p mod bs = p"
    and "p mod bs < min bs (n - p div bs * bs)"
proof -
  show a: "p div bs * bs + p mod bs = p" by simp
  then show b: "p div bs * bs \<le> p" by linarith
  then show "p div bs * bs < n" using assms(2) by linarith
  have "p mod bs < bs" using assms(1) by simp
  moreover have "p mod bs < n - p div bs * bs" using a assms(2) by linarith
  ultimately show "p mod bs < min bs (n - p div bs * bs)" by simp
qed

lemma embed_batches_from_spec:
  assumes bs: "0 < bs"
    and contract: "\<forall>j data. client j (py_slice j (j + bs) chunks) qt = Inr data
           \<longrightarrow> length data = length (py_slice j (j + bs) chunks)"
  shows "length (embed_batches_from client chunks qt bs 0) = length chunks
       \<and> (\<forall>p<length chunks.
              embed_batches_from client chunks qt bs 0 ! p = batch_outcome client chunks qt bs p)"
proof -
  define part where "part i = (case client i (py_slice i (i + bs) chunks) qt of
                       Inr data \<Rightarrow> map Some data
                     | Inl e \<Rightarrow> map (\<lambda>chunk. None) (py_slice i (i + bs) chunks))" for i
  have rec: "embed_batches_from client chunks qt bs i
               = (if length chunks \<le> i then [] else part i @ embed_batches_from client chunks qt bs (i + bs))"
    for i
    using bs by (subst embed_batches_from.simps) (simp add: part_def Let_def)
  have len: "length (part i) = min bs (length chunks - i)" for i
    using contract by (auto simp: part_def length_py_slice split: sum.splits)
  from batched_loop [of "embed_batches_from client chunks qt bs" "length chunks" part bs 0, OF rec len bs]
  have loop: "length (embed_batches_from client chunks qt bs 0) = length chunks"
    "\<forall>p<length chunks. embed_batches_from client chunks qt bs 0 ! p = part (p div bs * bs) ! (p mod bs)"
    by auto
  have "part (p div bs * bs) ! (p mod bs) = batch_outcome client chunks qt bs p"
    if p: "p < length chunks" for p
  proof -
    let ?start = "p div bs * bs"
    have in_part: "p mod bs < length (part ?start)"
      using batch_position(4) [OF bs p] len [of ?start] by simp
    show ?thesis
    proof (cases "client ?start (py_slice ?start (?start + bs) chunks) qt")
      case (Inl e)
      then show ?thesis using in_part by (simp add: batch_outcome_def part_def Let_def)
    next
      case (Inr data)
      then show ?thesis using in_part by (simp add: batch_outcome_def part_def Let_def)
    qed
  qed
  then show ?thesis using loop by simp
qed

lemma reconstruct_from_length:
  "reconstruct_from embs counts i idx texts = Inr out \<Longrightarrow> length out = length texts"
proof (induction texts arbitrary: i idx out)
  case Nil
  then show ?case by simp
next
  case (Cons t texts)
  then show ?case
    by (auto simp: Let_def split: if_splits sum.splits)
qed

lemma create_text_chunks_lengths:
  "create_text_chunks splitter texts = (all_chunks, counts)
   \<Longrightarrow> length counts = length texts \<and> length all_chunks = sum_list counts"
  by (induction texts arbitrary: all_chunks counts) (auto simp: Let_def split: prod.splits)

lemma chunk_offset_bound:
  "i < length counts \<Longrightarrow> chunk_offset counts i + counts ! i \<le> sum_list counts"
proof -
  assume i: "i < length counts"
  have "sum_list counts = sum_list (take (Suc i) counts) + sum_list (drop (Suc i) counts)"
    by (metis append_take_drop_id sum_list_append)
  then show ?thesis using chunk_offset_Suc [OF i] by (simp add: chunk_offset_def)
qed

lemma not_none_Nil: "(not_none xs = []) = (\<forall>x\<in>set xs. x = None)"
  by (auto simp: not_none_def filter_empty_conv)

lemma py_slice_all:
  assumes "j \<le> length xs"
  shows "(\<forall>x\<in>set (py_slice i j xs). P x) = (\<forall>p. i \<le> p \<and> p < j \<longrightarrow> P (xs ! p))"
proof -
  have len: "length (py_slice i j xs) = j - i" using assms by (simp add: length_py_slice)
  have "(\<forall>x\<in>set (py_slice i j xs). P x) = (\<forall>q<j - i. P (py_slice i j xs ! q))"
    using len by (simp add: all_set_conv_all_nth)
  also have "\<dots> = (\<forall>q<j - i. P (xs ! (i + q)))"
    using len by (simp add: nth_py_slice)
  also have "\<dots> = (\<forall>p. i \<le> p \<and> p < j \<longrightarrow> P (xs ! p))"
  proof
    assume a: "\<forall>q<j - i. P (xs ! (i + q))"
    show "\<forall>p. i \<le> p \<and> p < j \<longrightarrow> P (xs ! p)"
    proof (intro allI impI)
      fix p assume "i \<le> p \<and> p < j"
      then have "p - i < j - i" and "i + (p - i) = p" by linarith+
      then show "P (xs ! p)" using a by metis
    qed
  next
    assume a: "\<forall>p. i \<le> p \<and> p < j \<longrightarrow> P (xs ! p)"
    show "\<forall>q<j - i. P (xs ! (i + q))"
    proof (intro allI impI)
      fix q assume "q < j - i"
      then have "i \<le> i + q \<and> i + q < j" by simp
      then show "P (xs ! (i + q))" using a by blast
    qed
  qed
  finally show ?thesis .
qed

lemma expected_embedding_None:
  assumes "i < length counts" and "length embs = sum_list counts"
  shows "(expected_embedding d embs counts i = None)
       = (\<forall>p. chunk_offset counts i \<le> p \<and> p < chunk_offset counts i + counts ! i \<longrightarrow> embs ! p = None)"
proof -
  have "chunk_offset counts i + counts ! i \<le> length embs"
    using chunk_offset_bound [OF assms(1)] assms(2) by simp
  from py_slice_all [OF this, of "chunk_offset counts i" "\<lambda>x. x = None"]
  show ?thesis by (simp add: expected_embedding_def Let_def not_none_Nil)
qed

lemma length_reconstruct_batch: "length (reconstruct_batch l e) = length l"
  by (induction l e rule: reconstruct_batch.induct) auto

lemma not_none_Cons:
  "not_none (None # xs) = not_none xs" "not_none (Some x # xs) = x # not_none xs" "not_none [] = []"
  by (simp_all add: not_none_def)

lemma nth_reconstruct_batch:
  "q < length l \<Longrightarrow>
     reconstruct_batch l e ! q =
       (if l ! q = None \<or> length e \<le> length (not_none (take q l)) then None
        else Some (e ! length (not_none (take q l))))"
proof (induction l e arbitrary: q rule: reconstruct_batch.induct)
  case (1 e)
  then show ?case by simp
next
  case (2 l e)
  then show ?case by (cases q) (simp_all add: not_none_Cons)
next
  case (3 d l)
  then show ?case by (cases q) (simp_all add: not_none_Cons)
next
  case (4 d l x e)
  then show ?case by (cases q) (simp_all add: not_none_Cons)
qed

lemma image_embeddings_spec:
  "length (image_embeddings img texts) = length texts
   \<and> (\<forall>p<length texts. image_embeddings img texts ! p = image_outcome img texts p)"
proof -
  define part where "part i = embed_image_batch img i (py_slice i (i + 32) texts)" for i
  have rec: "image_embeddings_from img texts i
               = (if length texts \<le> i then [] else part i @ image_embeddings_from img texts (i + 32))"
    for i
    by (subst image_embeddings_from.simps) (simp add: part_def)
  have len: "length (part i) = min 32 (length texts - i)" for i
    by (simp add: part_def embed_image_batch_def Let_def length_reconstruct_batch length_py_slice)
  from batched_loop [of "image_embeddings_from img texts" "length texts" part 32 0, OF rec len]
  have loop: "length (image_embeddings_from img texts 0) = length texts"
    "\<forall>p<length texts. image_embeddings_from img texts 0 ! p = part (p div 32 * 32) ! (p mod 32)"
    by auto
  have "part (p div 32 * 32) ! (p mod 32) = image_outcome img texts p"
    if p: "p < length texts" for p
  proof -
    let ?start = "p div 32 * 32"
    let ?batch = "py_slice ?start (?start + 32) texts"
    let ?inputs = "map (\<lambda>text. fst (normalize_input img text)) ?batch"
    have q: "p mod 32 < length ?batch"
      using batch_position(4) [of 32 p "length texts"] p by (simp add: length_py_slice)
    have "?batch ! (p mod 32) = texts ! (?start + p mod 32)"
      using q by (rule nth_py_slice)
    then have at: "?batch ! (p mod 32) = texts ! p" by simp
    have "part ?start ! (p mod 32) = reconstruct_batch ?inputs (batch_response img ?start ?inputs) ! (p mod 32)"
      by (simp add: part_def embed_image_batch_def Let_def)
    also have "\<dots> = image_outcome img texts p"
      using q at by (subst nth_reconstruct_batch) (simp_all add: image_outcome_def Let_def)
    finally show ?thesis .
  qed
  then show ?thesis using loop by (simp add: image_embeddings_def)
qed


lemma expected_embedding_zero: "counts ! i = 0 \<Longrightarrow> expected_embedding d embs counts i = None"
  by (simp add: expected_embedding_def py_slice_def not_none_def)

text \<open>
  Claim C5. When every text has a chunk count and the chunk vectors have one dimension
  \<open>d\<close>, the reconstruction returns one entry per text: for a text whose slice of chunk
  embeddings holds a vector, the coordinate-wise arithmetic mean of exactly the vectors of
  the slice that are not absent, as it is (nothing rescales it); and absence for a text
  with no chunk or with only absent chunk embeddings.
\<close>

theorem reconstruct_embeddings_mean:
  assumes "length texts \<le> length text_chunk_counts"
    and "\<forall>v. Some v \<in> set all_chunk_embeddings \<longrightarrow> length v = d"
  shows "\<exists>final_embeddings.
           reconstruct_embeddings texts all_chunk_embeddings text_chunk_counts = Inr final_embeddings
         \<and> length final_embeddings = length texts
         \<and> (\<forall>i<length texts.
               final_embeddings ! i = expected_embedding d all_chunk_embeddings text_chunk_counts i
             \<and> (text_chunk_counts ! i = 0 \<longrightarrow> final_embeddings ! i = None))"
proof -
  have "length texts + 0 \<le> length text_chunk_counts" using assms(1) by simp
  moreover have "0 = chunk_offset text_chunk_counts 0" by (simp add: chunk_offset_def)
  ultimately obtain out where
    out: "reconstruct_from all_chunk_embeddings text_chunk_counts 0 0 texts = Inr out"
      "length out = length texts"
      "\<forall>n<length texts. out ! n = expected_embedding d all_chunk_embeddings text_chunk_counts (0 + n)"
    using reconstruct_from_spec [of texts 0 text_chunk_counts all_chunk_embeddings d 0] assms(2)
    by blast
  then show ?thesis
    using expected_embedding_zero [of text_chunk_counts _ d all_chunk_embeddings]
    by (auto simp: reconstruct_embeddings_def)
qed


lemma text_embeddings_length:
  "text_embeddings env texts query_type = Inr out \<Longrightarrow> length out = length texts"
  by (auto simp: text_embeddings_def reconstruct_embeddings_def
           split: if_splits prod.splits sum.splits dest: reconstruct_from_length)

lemma text_embeddings_spec:
  assumes chunks: "create_text_chunks (split_text env) texts = (all_chunks, counts)"
    and contract: "\<forall>j data. text_client env j (py_slice j (j + 32) all_chunks) query_type = Inr data
           \<longrightarrow> length data = length (py_slice j (j + 32) all_chunks)"
    and dim: "\<forall>j batch data v. text_client env j batch query_type = Inr data \<and> v \<in> set data
           \<longrightarrow> length v = d"
  shows "\<exists>out. text_embeddings env texts query_type = Inr out \<and> length out = length texts
           \<and> (\<forall>i<length texts.
                 out ! i = expected_embedding d
                             (map (batch_outcome (text_client env) all_chunks query_type 32)
                                  [0..<length all_chunks]) counts i
               \<and> (out ! i = None)
                   = (\<forall>p. chunk_offset counts i \<le> p \<and> p < chunk_offset counts i + counts ! i
                          \<longrightarrow> batch_outcome (text_client env) all_chunks query_type 32 p = None))"
proof -
  from create_text_chunks_lengths [OF chunks]
  have lc: "length counts = length texts" and la: "length all_chunks = sum_list counts" by simp_all
  show ?thesis
  proof (cases "all_chunks = []")
    case True
    then have zero: "counts ! i = 0" if "i < length texts" for i
      using la lc that by (simp add: sum_list_eq_0_iff)
    have "text_embeddings env texts query_type = Inr (replicate (length texts) None)"
      using True chunks by (cases "texts = []") (simp_all add: text_embeddings_def)
    moreover have "\<not> (chunk_offset counts i \<le> p \<and> p < chunk_offset counts i + counts ! i)"
      if "i < length texts" for i p
      using zero [OF that] by simp
    moreover have "expected_embedding d
                     (map (batch_outcome (text_client env) all_chunks query_type 32)
                          [0..<length all_chunks]) counts i = None" for i
      using True by (simp add: expected_embedding_def py_slice_def not_none_def)
    ultimately show ?thesis by auto
  next
    case False
    then have ne: "texts \<noteq> []" using chunks by auto
    let ?embs = "embed_batches_from (text_client env) all_chunks query_type 32 0"
    from embed_batches_from_spec [of 32 "text_client env" all_chunks query_type] contract
    have le: "length ?embs = length all_chunks"
      and nth: "\<forall>p<length all_chunks. ?embs ! p = batch_outcome (text_client env) all_chunks query_type 32 p"
      by simp_all
    have uniform: "\<forall>v. Some v \<in> set ?embs \<longrightarrow> length v = d"
    proof (intro allI impI)
      fix v assume "Some v \<in> set ?embs"
      then obtain p where p: "p < length all_chunks" and "?embs ! p = Some v"
        using le by (metis in_set_conv_nth)
      then have bo: "batch_outcome (text_client env) all_chunks query_type 32 p = Some v"
        using nth by simp
      let ?start = "p div 32 * 32"
      let ?batch = "py_slice ?start (?start + 32) all_chunks"
      from bo obtain data where data: "text_client env ?start ?batch query_type = Inr data"
        and v: "v = data ! (p mod 32)"
        by (auto simp: batch_outcome_def Let_def split: sum.splits)
      have "length data = length ?batch" using contract data by blast
      moreover have "p mod 32 < length ?batch"
        using batch_position(4) [of 32 p "length all_chunks"] p by (simp add: length_py_slice)
      ultimately have "v \<in> set data" using v by simp
      then show "length v = d" using dim data by blast
    qed
    have "length texts + 0 \<le> length counts" using lc by simp
    moreover have "0 = chunk_offset counts 0" by (simp add: chunk_offset_def)
    ultimately obtain out where
      out: "reconstruct_from ?embs counts 0 0 texts = Inr out" "length out = length texts"
        "\<forall>n<length texts. out ! n = expected_embedding d ?embs counts (0 + n)"
      using reconstruct_from_spec [of texts 0 counts ?embs d 0] uniform by blast
    have run: "text_embeddings env texts query_type = Inr out"
      using ne False chunks out(1)
      by (simp add: text_embeddings_def embed_chunks_in_batches_def reconstruct_embeddings_def)
    have embs: "?embs = map (batch_outcome (text_client env) all_chunks query_type 32)
                            [0..<length all_chunks]"
      using le nth by (intro nth_equalityI) simp_all
    have value_at: "out ! i = expected_embedding d
                        (map (batch_outcome (text_client env) all_chunks query_type 32)
                             [0..<length all_chunks]) counts i"
      if "i < length texts" for i
      using out(3) that unfolding embs by simp
    have "(out ! i = None)
            = (\<forall>p. chunk_offset counts i \<le> p \<and> p < chunk_offset counts i + counts ! i
                   \<longrightarrow> batch_outcome (text_client env) all_chunks query_type 32 p = None)"
      if i: "i < length texts" for i
    proof -
      have ic: "i < length counts" using i lc by simp
      have bound: "chunk_offset counts i + counts ! i \<le> length all_chunks"
        using chunk_offset_bound [OF ic] la by simp
      have "(out ! i = None) = (expected_embedding d ?embs counts i = None)"
        using out(3) i by simp
      also have "\<dots> = (\<forall>p. chunk_offset counts i \<le> p \<and> p < chunk_offset counts i + counts ! i
                          \<longrightarrow> ?embs ! p = None)"
        using expected_embedding_None [OF ic, of ?embs d] le la by simp
      also have "\<dots> = (\<forall>p. chunk_offset counts i \<le> p \<and> p < chunk_offset counts i + counts ! i
                   \<longrightarrow> batch_outcome (text_client env) all_chunks query_type 32 p = None)"
        using nth bound by (metis less_le_trans)
      finally show ?thesis .
    qed
    then show ?thesis using run out(2) value_at by blast
  qed
qed



text \<open>
  Claim C6. Whenever the text embedding returns, it returns one entry per input text, and
  it does return when the endpoint answers each successful call with one vector per chunk,
  all of one dimension. Entry \<open>i\<close> is then the one of text \<open>i\<close>: the mean of the vectors
  that the calls answered for the chunks of text \<open>i\<close>, each taken at the place of its chunk,
  and it is absent exactly when every chunk of text \<open>i\<close> lies in a batch whose call failed
  (or the text has no chunk). The image embedding always
  returns one entry per reference: entry \<open>p\<close> is what \<open>image_outcome\<close> says of
  reference \<open>p\<close>, and it is absent when the normalisation of that reference failed.
\<close>

theorem embeddings_preserve_positions:
  "(text_embeddings env texts query_type = Inr out \<longrightarrow> length out = length texts)
   \<and> (create_text_chunks (split_text env) texts = (all_chunks, counts)
        \<and> (\<forall>j data. text_client env j (py_slice j (j + 32) all_chunks) query_type = Inr data
               \<longrightarrow> length data = length (py_slice j (j + 32) all_chunks))
        \<and> (\<forall>j batch data v. text_client env j batch query_type = Inr data \<and> v \<in> set data
               \<longrightarrow> length v = d)
       \<longrightarrow> (\<exists>final. text_embeddings env texts query_type = Inr final
                 \<and> length final = length texts
                 \<and> (\<forall>i<length texts.
                       final ! i = expected_embedding d
                                     (map (batch_outcome (text_client env) all_chunks query_type 32)
                                          [0..<length all_chunks]) counts i
                     \<and> (final ! i = None)
                         = (\<forall>p. chunk_offset counts i \<le> p \<and> p < chunk_offset counts i + counts ! i
                                \<longrightarrow> batch_outcome (text_client env) all_chunks query_type 32 p = None))))
   \<and> length (image_embeddings img refs) = length refs
   \<and> (\<forall>p<length refs.
         image_embeddings img refs ! p = image_outcome img refs p
       \<and> (fst (normalize_input img (refs ! p)) = None \<longrightarrow> image_embeddings img refs ! p = None))"
proof -
  have a: "text_embeddings env texts query_type = Inr out \<longrightarrow> length out = length texts"
    using text_embeddings_length by blast
  have b: "create_text_chunks (split_text env) texts = (all_chunks, counts)
        \<and> (\<forall>j data. text_client env j (py_slice j (j + 32) all_chunks) query_type = Inr data
               \<longrightarrow> length data = length (py_slice j (j + 32) all_chunks))
        \<and> (\<forall>j batch data v. text_client env j batch query_type = Inr data \<and> v \<in> set data
               \<longrightarrow> length v = d)
       \<longrightarrow> (\<exists>final. text_embeddings env texts query_type = Inr final
                 \<and> length final = length texts
                 \<and> (\<forall>i<length texts.
                       final ! i = expected_embedding d
                                     (map (batch_outcome (text_client env) all_chunks query_type 32)
                                          [0..<length all_chunks]) counts i
                     \<and> (final ! i = None)
                         = (\<forall>p. chunk_offset counts i \<le> p \<and> p < chunk_offset counts i + counts ! i
                                \<longrightarrow> batch_outcome (text_client env) all_chunks query_type 32 p = None)))"
    using text_embeddings_spec [of env texts all_chunks counts query_type d] by blast
  have c: "length (image_embeddings img refs) = length refs"
    using image_embeddings_spec [of img refs] by blast
  have d: "\<forall>p<length refs.
         image_embeddings img refs ! p = image_outcome img refs p
       \<and> (fst (normalize_input img (refs ! p)) = None \<longrightarrow> image_embeddings img refs ! p = None)"
    using image_embeddings_spec [of img refs] by (simp add: image_outcome_def Let_def)
  from a b c d show ?thesis by blast
qed

lemma url_within: "image_url_to_base64 img u = Some s \<Longrightarrow> length s \<le> 65535"
  by (auto simp: image_url_to_base64_def Let_def split: sum.splits prod.splits if_splits)

lemma path_within: "image_path_to_base64 img p = Inr (Some s) \<Longrightarrow> length s \<le> 65535"
  by (auto simp: image_path_to_base64_def Let_def split: sum.splits if_splits)

lemma load_input_helpers_within:
  "is_url text \<or> is_path text \<Longrightarrow> load_input img text = Inr (Some s) \<Longrightarrow> length s \<le> 65535"
  by (auto simp: load_input_def dest: url_within path_within split: if_splits)

text \<open>
  Claim C8, as amended. A payload that reaches the length check above the ceiling of 65535
  gets exactly one resize pass, and the result is kept only when it is non-empty and
  within the ceiling; otherwise the position is absent. Such a payload is always an inline
  one: for a URL or a path the helper has returned absence for an over-long encoding, so
  no resize pass follows. A failed or absent payload gives absence. There is never more
  than one pass, no exception leaves the normalisation, and a payload that is kept is
  within the ceiling.
\<close>

theorem normalize_input_resize:
  "(load_input img text = Inr (Some input_data) \<and> length input_data > MAX_VARCHAR_LENGTH
      \<longrightarrow> snd (normalize_input img text) = [input_data]
        \<and> fst (normalize_input img text)
            = (case resize_base64_image img input_data of
                 None \<Rightarrow> None
               | Some resized \<Rightarrow>
                   if resized \<noteq> [] \<and> length resized \<le> MAX_VARCHAR_LENGTH then Some resized else None))
   \<and> (\<not> is_url text \<and> \<not> is_path text \<and> length text > MAX_VARCHAR_LENGTH
      \<longrightarrow> snd (normalize_input img text) = [text])
   \<and> (is_url text \<or> is_path text \<longrightarrow> snd (normalize_input img text) = [])
   \<and> (load_input img text = Inr None \<or> isl (load_input img text)
      \<longrightarrow> normalize_input img text = (None, []))
   \<and> length (snd (normalize_input img text)) \<le> 1
   \<and> (fst (normalize_input img text) = Some payload \<longrightarrow> length payload \<le> MAX_VARCHAR_LENGTH)"
proof -
  have a: "snd (normalize_input img text) = [input_data]
        \<and> fst (normalize_input img text)
            = (case resize_base64_image img input_data of
                 None \<Rightarrow> None
               | Some resized \<Rightarrow>
                   if resized \<noteq> [] \<and> length resized \<le> MAX_VARCHAR_LENGTH then Some resized else None)"
    if "load_input img text = Inr (Some input_data)" "length input_data > MAX_VARCHAR_LENGTH"
    using that by (simp add: normalize_input_def split: option.splits)
  have b: "snd (normalize_input img text) = [text]"
    if "\<not> is_url text" "\<not> is_path text" "length text > MAX_VARCHAR_LENGTH"
    using that by (simp add: normalize_input_def load_input_def split: option.splits)
  have c: "snd (normalize_input img text) = []" if "is_url text \<or> is_path text"
  proof (cases "load_input img text")
    case (Inl e)
    then show ?thesis by (simp add: normalize_input_def)
  next
    case (Inr r)
    show ?thesis
    proof (cases r)
      case None
      then show ?thesis using Inr by (simp add: normalize_input_def)
    next
      case (Some s)
      then have "length s \<le> 65535" using load_input_helpers_within [OF that] Inr by simp
      then show ?thesis using Inr Some by (simp add: normalize_input_def MAX_VARCHAR_LENGTH_def)
    qed
  qed
  have d: "normalize_input img text = (None, [])"
    if "load_input img text = Inr None \<or> isl (load_input img text)"
    using that by (auto simp: normalize_input_def split: sum.splits)
  have e: "length (snd (normalize_input img text)) \<le> 1"
    by (simp add: normalize_input_def split: sum.splits option.splits)
  have f: "length payload \<le> MAX_VARCHAR_LENGTH" if "fst (normalize_input img text) = Some payload"
    using that by (auto simp: normalize_input_def split: sum.splits option.splits if_splits)
  from a b c d e f show ?thesis by blast
qed

text \<open>
  Claim C8 as stated fails for a URL reference: the encoded payload of the fetched image
  exceeds the ceiling, the position is absent, and no resize pass was attempted.
\<close>

theorem normalize_input_url_counterexample:
  "is_url ''http://big''
   \<and> http_get example_big_imaging ''http://big'' = Inr (''image/jpeg'', ''big'')
   \<and> encode_jpeg example_big_imaging ''big'' = Inr (replicate 65536 CHR ''A'')
   \<and> length (''data:'' @ ''image/jpeg'' @ '';base64,'' @ replicate 65536 CHR ''A'') > MAX_VARCHAR_LENGTH
   \<and> normalize_input example_big_imaging ''http://big'' = (None, [])
   \<and> length (snd (normalize_input example_big_imaging ''http://big'')) \<noteq> 1"
  by (simp add: normalize_input_def load_input_def is_url_def image_url_to_base64_def
        example_big_imaging_def MAX_VARCHAR_LENGTH_def)

lemma embeddings_exist_iff:
  "embeddings_exist s =
     (\<exists>text_entities image_entities.
        col (text_store s) = Some text_entities \<and> text_entities \<noteq> [] \<and> \<not> flush_fails (text_store s)
      \<and> col (image_store s) = Some image_entities \<and> image_entities \<noteq> []
      \<and> \<not> flush_fails (image_store s))"
  by (auto simp: embeddings_exist_def count_entities_def split: option.splits)

text \<open>
  When both collections hold data and can be read, the import changes nothing.
\<close>

lemma milvus_from_csv_skips:
  "embeddings_exist s \<Longrightarrow> milvus_from_csv env img csv s = Inr s"
  by (simp add: milvus_from_csv_def)

lemma norm_ok: "normalize_input example_imaging ''http://ok'' = (Some ''data:image/png;base64,QUJD'', [])"
  by (simp add: normalize_input_def load_input_def is_url_def image_url_to_base64_def
        example_imaging_def MAX_VARCHAR_LENGTH_def)

lemma norm_missing: "normalize_input example_imaging ''http://missing'' = (None, [])"
  by (simp add: normalize_input_def load_input_def is_url_def image_url_to_base64_def
        example_imaging_def MAX_VARCHAR_LENGTH_def)

lemma norm_inline: "normalize_input example_imaging ''inline'' = (Some ''inline'', [])"
  by (simp add: normalize_input_def load_input_def is_url_def is_path_def
        example_imaging_def MAX_VARCHAR_LENGTH_def)

lemma client_ex:
  "image_client example_imaging i valid_inputs = Inr (map (\<lambda>d. [real (length d)]) valid_inputs)"
  by (simp add: example_imaging_def)

lemma img3: "image_embeddings example_imaging [''http://ok'', ''http://missing'', ''inline'']
   = [Some [26], None, Some [6]]"
  by (simp add: image_embeddings_def image_embeddings_from.simps embed_image_batch_def py_slice_def
        batch_response_def not_none_def norm_ok norm_missing norm_inline client_ex)

lemma img1: "image_embeddings example_imaging [''http://ok''] = [Some [26]]"
  by (simp add: image_embeddings_def image_embeddings_from.simps embed_image_batch_def py_slice_def
        batch_response_def not_none_def norm_ok client_ex)

lemma norm_ok_failing:
  "normalize_input example_failing_imaging ''http://ok'' = (Some ''data:image/png;base64,QUJD'', [])"
  by (simp add: normalize_input_def load_input_def is_url_def image_url_to_base64_def
        example_failing_imaging_def MAX_VARCHAR_LENGTH_def)

lemma client_failing: "image_client example_failing_imaging i valid_inputs = Inl (RemoteError ''down'')"
  by (simp add: example_failing_imaging_def)

lemma img1_failing: "image_embeddings example_failing_imaging [''http://ok''] = [None]"
  by (simp add: image_embeddings_def image_embeddings_from.simps embed_image_batch_def py_slice_def
        batch_response_def not_none_def norm_ok_failing client_failing)

lemma txt1: "text_embeddings example_embedder [''a | b | c,d''] ''passage'' = Inr [Some [1, 1]]"
  by code_simp

lemma first_startup:
  "milvus_from_csv example_embedder example_failing_imaging (Inr [example_row]) example_empty_stores
     = Inr example_text_only_stores"
proof -
  have e: "\<not> embeddings_exist example_empty_stores"
    by (simp add: embeddings_exist_def count_entities_def example_empty_stores_def)
  have p: "populate example_embedder example_failing_imaging (Inr [example_row]) example_empty_stores
             = Inr example_text_only_stores"
    by (simp add: populate_def example_row_def txt1 img1_failing successful_data_def
          add_embeddings_def example_empty_stores_def example_text_only_stores_def)
  show ?thesis using e p by (simp add: milvus_from_csv_def)
qed

lemma text_only_not_exist: "\<not> embeddings_exist example_text_only_stores"
  by (simp add: embeddings_exist_def count_entities_def example_text_only_stores_def)

lemma second_startup:
  "milvus_from_csv example_embedder example_imaging (Inr [example_row]) example_text_only_stores
     = Inr example_duplicated_stores"
proof -
  have p: "populate example_embedder example_imaging (Inr [example_row]) example_text_only_stores
             = Inr example_duplicated_stores"
    by (simp add: populate_def example_row_def txt1 img1 successful_data_def
          add_embeddings_def example_text_only_stores_def example_duplicated_stores_def)
  show ?thesis using text_only_not_exist p by (simp add: milvus_from_csv_def)
qed

text \<open>
  Claim C9, evaluated at two start-ups in a row. The first runs on empty stores while the
  image endpoint is down and fills the text collection only. At the second the
  collections are not both empty, yet \<open>embeddings_exist\<close> is false, the import populates
  again, and the text collection, which already held the record, now holds it twice.
\<close>

theorem milvus_from_csv_repeated_startup:
  "milvus_from_csv example_embedder example_failing_imaging (Inr [example_row]) example_empty_stores
     = Inr example_text_only_stores
   \<and> col (text_store example_text_only_stores) = Some [(''a | b | c,d'', [1, 1], example_row)]
   \<and> col (image_store example_text_only_stores) = None
   \<and> \<not> embeddings_exist example_text_only_stores
   \<and> milvus_from_csv example_embedder example_imaging (Inr [example_row]) example_text_only_stores
       = Inr example_duplicated_stores
   \<and> col (text_store example_duplicated_stores)
       = Some [(''a | b | c,d'', [1, 1], example_row), (''a | b | c,d'', [1, 1], example_row)]"
  using first_startup second_startup text_only_not_exist
  by (simp add: example_text_only_stores_def example_duplicated_stores_def)

theorem reconstruct_embeddings_mean_witness:
  "reconstruct_embeddings [''a'', ''b'', ''c''] [Some [1, 2], None, Some [3, 6], None] [3, 1, 0]
     = Inr [Some [2, 4], None, None]
   \<and> expected_embedding 2 [Some [1, 2], None, Some [3, 6], None] [3, 1, 0] 0 = Some [2, 4]
   \<and> expected_embedding 2 [Some [1, 2], None, Some [3, 6], None] [3, 1, 0] 1 = None
   \<and> expected_embedding 2 [Some [1, 2], None, Some [3, 6], None] [3, 1, 0] 2 = None"
proof -
  let ?T = "[''a'', ''b'', ''c'']"
  let ?E = "[Some [1, 2], None, Some [3, 6], None] :: vec option list"
  let ?C = "[3, 1, 0] :: nat list"
  have h1: "length ?T \<le> length ?C" by simp
  have h2: "\<forall>v. Some v \<in> set ?E \<longrightarrow> length v = 2" by auto
  have ev: "reconstruct_embeddings ?T ?E ?C = Inr [Some [2, 4], None, None]" by code_simp
  from reconstruct_embeddings_mean [OF h1 h2] obtain final where
    f: "reconstruct_embeddings ?T ?E ?C = Inr final"
    and g: "\<forall>i<length ?T. final ! i = expected_embedding 2 ?E ?C i
              \<and> (?C ! i = 0 \<longrightarrow> final ! i = None)"
    by blast
  from f ev have final: "final = [Some [2, 4], None, None]" by simp
  have "final ! 0 = expected_embedding 2 ?E ?C 0" using g by simp
  moreover have "final ! 1 = expected_embedding 2 ?E ?C 1" using g by simp
  moreover have "final ! 2 = expected_embedding 2 ?E ?C 2" using g by simp
  ultimately show ?thesis using ev unfolding final by simp
qed


lemma example_chunks_created:
  "create_text_chunks (split_text example_word_embedder) example_texts
     = (example_chunks, example_counts)"
  by code_simp

lemma example_texts_embedded:
  "text_embeddings example_word_embedder example_texts ''query'' = Inr example_text_embeddings"
  by code_simp

theorem embeddings_preserve_positions_witness:
  "text_embeddings example_word_embedder example_texts ''query'' = Inr example_text_embeddings
   \<and> create_text_chunks (split_text example_word_embedder) example_texts
       = (example_chunks, example_counts)
   \<and> length example_text_embeddings = length example_texts
   \<and> expected_embedding 2
        (map (batch_outcome (text_client example_word_embedder) example_chunks ''query'' 32)
             [0..<length example_chunks]) example_counts 0 = None
   \<and> expected_embedding 2
        (map (batch_outcome (text_client example_word_embedder) example_chunks ''query'' 32)
             [0..<length example_chunks]) example_counts 32 = Some [2, 1]
   \<and> expected_embedding 2
        (map (batch_outcome (text_client example_word_embedder) example_chunks ''query'' 32)
             [0..<length example_chunks]) example_counts 33 = None
   \<and> expected_embedding 2
        (map (batch_outcome (text_client example_word_embedder) example_chunks ''query'' 32)
             [0..<length example_chunks]) example_counts 34 = Some [3, 1]
   \<and> batch_outcome (text_client example_word_embedder) example_chunks ''query'' 32 0 = None
   \<and> image_embeddings example_imaging [''http://ok'', ''http://missing'', ''inline'']
       = [Some [26], None, Some [6]]
   \<and> length (image_embeddings example_imaging [''http://ok'', ''http://missing'', ''inline''])
       = length [''http://ok'', ''http://missing'', ''inline'']
   \<and> fst (normalize_input example_imaging ''http://missing'') = None
   \<and> image_outcome example_imaging [''http://ok'', ''http://missing'', ''inline''] 1 = None
   \<and> image_outcome example_imaging [''http://ok'', ''http://missing'', ''inline''] 2 = Some [6]"
proof -
  let ?W = "example_word_embedder"
  let ?R = "[''http://ok'', ''http://missing'', ''inline'']"
  let ?embs = "map (batch_outcome (text_client ?W) example_chunks ''query'' 32)
                   [0..<length example_chunks]"
  have contract: "\<forall>j data. text_client ?W j (py_slice j (j + 32) example_chunks) ''query'' = Inr data
                    \<longrightarrow> length data = length (py_slice j (j + 32) example_chunks)"
    by (auto simp: example_word_embedder_def example_client_def)
  have dim: "\<forall>j batch data v. text_client ?W j batch ''query'' = Inr data \<and> v \<in> set data
               \<longrightarrow> length v = 2"
    by (auto simp: example_word_embedder_def example_client_def)
  note t = embeddings_preserve_positions
    [of ?W example_texts "''query''" example_text_embeddings example_chunks example_counts 2
        example_imaging ?R]
  have prem: "create_text_chunks (split_text ?W) example_texts = (example_chunks, example_counts)
        \<and> (\<forall>j data. text_client ?W j (py_slice j (j + 32) example_chunks) ''query'' = Inr data
               \<longrightarrow> length data = length (py_slice j (j + 32) example_chunks))
        \<and> (\<forall>j batch data v. text_client ?W j batch ''query'' = Inr data \<and> v \<in> set data
               \<longrightarrow> length v = 2)"
    using example_chunks_created contract dim by (intro conjI)
  from t [THEN conjunct2, THEN conjunct1, THEN mp, OF prem] obtain final where
    f: "text_embeddings ?W example_texts ''query'' = Inr final"
    and g: "\<forall>i<length example_texts.
              final ! i = expected_embedding 2 ?embs example_counts i
            \<and> (final ! i = None)
                = (\<forall>p. chunk_offset example_counts i \<le> p
                        \<and> p < chunk_offset example_counts i + example_counts ! i
                       \<longrightarrow> batch_outcome (text_client ?W) example_chunks ''query'' 32 p = None)"
    by blast
  from f example_texts_embedded have final: "final = example_text_embeddings" by simp
  have len: "length example_texts = 35" by (simp add: example_texts_def)
  have v0: "example_text_embeddings ! 0 = None" by (simp add: example_text_embeddings_def nth_append)
  have v32: "example_text_embeddings ! 32 = Some [2, 1]"
    by (simp add: example_text_embeddings_def nth_append)
  have v33: "example_text_embeddings ! 33 = None"
    by (simp add: example_text_embeddings_def nth_append)
  have v34: "example_text_embeddings ! 34 = Some [3, 1]"
    by (simp add: example_text_embeddings_def nth_append)
  have e0: "expected_embedding 2 ?embs example_counts 0 = None"
    using g [rule_format, of 0] len v0 unfolding final by simp
  have e32: "expected_embedding 2 ?embs example_counts 32 = Some [2, 1]"
    using g [rule_format, of 32] len v32 unfolding final by simp
  have e33: "expected_embedding 2 ?embs example_counts 33 = None"
    using g [rule_format, of 33] len v33 unfolding final by simp
  have e34: "expected_embedding 2 ?embs example_counts 34 = Some [3, 1]"
    using g [rule_format, of 34] len v34 unfolding final by simp
  have range0: "chunk_offset example_counts 0 \<le> 0
                \<and> 0 < chunk_offset example_counts 0 + example_counts ! 0"
    by (simp add: chunk_offset_def example_counts_def nth_append)
  have "\<forall>p. chunk_offset example_counts 0 \<le> p
             \<and> p < chunk_offset example_counts 0 + example_counts ! 0
            \<longrightarrow> batch_outcome (text_client ?W) example_chunks ''query'' 32 p = None"
    using g [rule_format, of 0] len v0 unfolding final by simp
  then have b0: "batch_outcome (text_client ?W) example_chunks ''query'' 32 0 = None"
    using range0 by blast
  from t example_texts_embedded have a: "length example_text_embeddings = length example_texts"
    by blast
  from t have b: "length (image_embeddings example_imaging ?R) = length ?R" by blast
  from t have c: "\<forall>p<length ?R. image_embeddings example_imaging ?R ! p
                     = image_outcome example_imaging ?R p" by blast
  have i1: "image_embeddings example_imaging ?R ! 1 = image_outcome example_imaging ?R 1"
    using c by simp
  have i2: "image_embeddings example_imaging ?R ! 2 = image_outcome example_imaging ?R 2"
    using c by simp
  have o1: "image_outcome example_imaging ?R 1 = None" using i1 unfolding img3 by simp
  have o2: "image_outcome example_imaging ?R 2 = Some [6]" using i2 unfolding img3 by simp
  have n: "fst (normalize_input example_imaging ''http://missing'') = None"
    by (simp add: norm_missing)
  from example_texts_embedded example_chunks_created a e0 e32 e33 e34 b0 img3 b n o1 o2
  show ?thesis by (intro conjI)
qed

lemma norm_oversized_inline:
  "normalize_input example_imaging (''data:image/png;base64,'' @ replicate 65536 CHR ''B'')
     = (Some ''data:image/png;base64,QUJD'', [''data:image/png;base64,'' @ replicate 65536 CHR ''B''])"
  by (simp add: normalize_input_def load_input_def is_url_def is_path_def resize_base64_image_def
        split_once_def example_imaging_def MAX_VARCHAR_LENGTH_def)

theorem normalize_input_resize_witness:
  "\<not> is_url (''data:image/png;base64,'' @ replicate 65536 CHR ''B'')
   \<and> \<not> is_path (''data:image/png;base64,'' @ replicate 65536 CHR ''B'')
   \<and> length (''data:image/png;base64,'' @ replicate 65536 CHR ''B'') > MAX_VARCHAR_LENGTH
   \<and> snd (normalize_input example_imaging (''data:image/png;base64,'' @ replicate 65536 CHR ''B''))
       = [''data:image/png;base64,'' @ replicate 65536 CHR ''B'']
   \<and> fst (normalize_input example_imaging (''data:image/png;base64,'' @ replicate 65536 CHR ''B''))
       = Some ''data:image/png;base64,QUJD''
   \<and> length (''data:image/png;base64,QUJD'') \<le> MAX_VARCHAR_LENGTH"
proof -
  let ?P = "''data:image/png;base64,'' @ replicate 65536 CHR ''B''"
  have h: "\<not> is_url ?P \<and> \<not> is_path ?P \<and> length ?P > MAX_VARCHAR_LENGTH"
    by (simp add: is_url_def is_path_def MAX_VARCHAR_LENGTH_def)
  note t = normalize_input_resize [of example_imaging ?P ?P "''data:image/png;base64,QUJD''"]
  from t h have a: "snd (normalize_input example_imaging ?P) = [?P]" by blast
  have b: "fst (normalize_input example_imaging ?P) = Some ''data:image/png;base64,QUJD''"
    by (simp only: norm_oversized_inline fst_conv)
  from t b have c: "length ''data:image/png;base64,QUJD'' \<le> MAX_VARCHAR_LENGTH" by blast
  from h a b c show ?thesis by blast
qed

end
